theory Spec2Isabelle
  imports Complex_Main "HOL-Library.Multiset" "HOL-Library.Log_Nat"
begin

section \<open>Address normalizer (helpers/indices.ts)\<close>

text \<open>
  The user-facing API is 1-based, the DAW protocol is 0-based. An index is a JavaScript
  \<open>number\<close>, an IEEE-754 double, holding an integer. The sum or difference of two such
  numbers is the exact result rounded to the nearest double, ties to the one with an even
  significand. The doubles between \<open>2 ^ (e - 1)\<close> and \<open>2 ^ e\<close> in magnitude are the
  multiples of \<open>2 ^ (e - 53)\<close>, and \<open>floorlog 2 n\<close> is the number of binary digits of
  \<open>n\<close>; so \<open>ulp x\<close> is the spacing of the doubles around the integer \<open>x\<close>, and it is 1 up
  to \<open>2 ^ 53\<close>. (Adding or subtracting 1 never overflows: from \<open>2 ^ 54\<close> on the result
  rounds back to the argument.)
\<close>

definition ulp :: "int \<Rightarrow> int" where
  "ulp x = 2 ^ (floorlog 2 (nat \<bar>x\<bar>) - 53)"

definition roundDouble :: "int \<Rightarrow> int" where
  "roundDouble x =
     (let u = ulp x; q = x div u; r = x mod u
      in if 2 * r < u then q * u
         else if u < 2 * r then (q + 1) * u
         else if even q then q * u
         else (q + 1) * u)"

definition toInternal :: "int \<Rightarrow> int" where
  "toInternal index = roundDouble (index - 1)"

definition toUser :: "int \<Rightarrow> int" where
  "toUser index = roundDouble (index + 1)"

section \<open>Correlated channel (daw-client.ts, class DAWClient)\<close>

datatype DAWType = Bitwig | Ableton

fun dawName :: "DAWType \<Rightarrow> string" where
  "dawName Bitwig = ''bitwig''"
| "dawName Ableton = ''ableton''"

text \<open>A JavaScript \<open>Error\<close> object, identified by its message.\<close>

datatype error = Error (message: string)

text \<open>
  \<open>String(n)\<close> for a non-negative integer: its decimal digits, most significant first.
\<close>

definition digit :: "nat \<Rightarrow> char" where
  "digit d = char_of (48 + d)"

function String_nat :: "nat \<Rightarrow> string" where
  "String_nat n = (if n < 10 then [digit n] else String_nat (n div 10) @ [digit (n mod 10)])"
  by pat_completeness auto
termination
  by (relation "measure id") auto

declare String_nat.simps [simp del]

text \<open>
  The wire frames. A response carries the id and either a result or an error object;
  \<open>rsp_error = None\<close> stands for an absent (or falsy) \<open>error\<close> field.
\<close>

record 'p JsonRpcRequest =
  req_id :: string
  req_method :: string
  req_params :: 'p

record rpc_error =
  err_code :: int
  err_message :: string

record 'r JsonRpcResponse =
  rsp_id :: string
  rsp_result :: 'r
  rsp_error :: "rpc_error option"

text \<open>
  A call of \<open>resolve\<close> or \<open>reject\<close> on the promise of a caller. A caller \<open>'c\<close> stands
  for the pair of callbacks of the promise that one call of \<open>send\<close> created.
\<close>

datatype 'r outcome = Resolved 'r | Rejected error

text \<open>
  The state of one client. \<open>socketOpen\<close> is \<open>isConnected()\<close>; \<open>written\<close> is what was
  handed to \<open>socket.write\<close>; \<open>writeCallbacks\<close> and \<open>timers\<close> are the closures that
  \<open>send\<close> registered with \<open>socket.write\<close> and \<open>setTimeout\<close> and that have not run yet
  (each captures the id and the caller's \<open>reject\<close>; a timer also has its delay);
  \<open>calls\<close> is the sequence of \<open>resolve\<close>/\<open>reject\<close> calls made so far.
\<close>

record ('c, 'p, 'r) DAWClient =
  dawType :: DAWType
  timeout :: nat
  socketOpen :: bool
  requestId :: nat
  pendingRequests :: "string \<rightharpoonup> 'c"
  written :: "'p JsonRpcRequest list"
  writeCallbacks :: "string \<rightharpoonup> 'c"
  timers :: "string \<rightharpoonup> ('c \<times> nat)"
  calls :: "('c \<times> 'r outcome) list"

definition newClient :: "DAWType \<Rightarrow> nat \<Rightarrow> ('c, 'p, 'r) DAWClient" where
  "newClient d t =
     \<lparr> dawType = d, timeout = t, socketOpen = False, requestId = 0,
       pendingRequests = Map.empty, written = [], writeCallbacks = Map.empty,
       timers = Map.empty, calls = [] \<rparr>"

text \<open>
  \<open>send\<close>, called by \<open>c\<close>. When the socket is not connected, \<open>connect()\<close> is awaited
  first; \<open>conn\<close> is its outcome (\<open>Some err\<close> when the connection fails, in which case
  the async function throws and the caller's promise is rejected with \<open>err\<close>). Otherwise
  the next id is taken, the entry is registered, the frame is written and the timer is
  started with the configured duration. The \<open>requestId\<close> is an unbounded counter here.
\<close>

definition send ::
  "'c \<Rightarrow> string \<Rightarrow> 'p \<Rightarrow> error option \<Rightarrow> ('c, 'p, 'r) DAWClient \<Rightarrow> ('c, 'p, 'r) DAWClient" where
  "send c method params conn st =
     (case (if socketOpen st then None else conn) of
        Some err \<Rightarrow> st\<lparr> calls := calls st @ [(c, Rejected err)] \<rparr>
      | None \<Rightarrow>
          let n = requestId st + 1;
              ident = String_nat n;
              request = \<lparr> req_id = ident, req_method = method, req_params = params \<rparr>
          in st\<lparr> socketOpen := True,
                  requestId := n,
                  pendingRequests := (pendingRequests st)(ident \<mapsto> c),
                  written := written st @ [request],
                  writeCallbacks := (writeCallbacks st)(ident \<mapsto> c),
                  timers := (timers st)(ident \<mapsto> (c, timeout st)) \<rparr>)"

text \<open>The callback given to \<open>socket.write\<close> for request \<open>ident\<close> runs, with or without an error.\<close>

definition writeDone ::
  "string \<Rightarrow> error option \<Rightarrow> ('c, 'p, 'r) DAWClient \<Rightarrow> ('c, 'p, 'r) DAWClient" where
  "writeDone ident err st =
     (case writeCallbacks st ident of
        None \<Rightarrow> st
      | Some c \<Rightarrow>
          let st' = st\<lparr> writeCallbacks := (writeCallbacks st)(ident := None) \<rparr>
          in (case err of
                None \<Rightarrow> st'
              | Some e \<Rightarrow> st'\<lparr> pendingRequests := (pendingRequests st')(ident := None),
                               calls := calls st' @ [(c, Rejected e)] \<rparr>))"

text \<open>The timer that \<open>send\<close> started for request \<open>ident\<close> expires.\<close>

definition timeoutError :: "DAWType \<Rightarrow> error" where
  "timeoutError d = Error (''Request timeout ('' @ dawName d @ '')'')"

definition timerFires ::
  "string \<Rightarrow> ('c, 'p, 'r) DAWClient \<Rightarrow> ('c, 'p, 'r) DAWClient" where
  "timerFires ident st =
     (case timers st ident of
        None \<Rightarrow> st
      | Some (c, delay) \<Rightarrow>
          let st' = st\<lparr> timers := (timers st)(ident := None) \<rparr>
          in if pendingRequests st' ident \<noteq> None
             then st'\<lparr> pendingRequests := (pendingRequests st')(ident := None),
                       calls := calls st' @ [(c, Rejected (timeoutError (dawType st')))] \<rparr>
             else st')"

text \<open>\<open>handleResponse\<close>: one parsed inbound frame.\<close>

definition responseOutcome :: "'r JsonRpcResponse \<Rightarrow> 'r outcome" where
  "responseOutcome response =
     (case rsp_error response of
        Some e \<Rightarrow> Rejected (Error (err_message e))
      | None \<Rightarrow> Resolved (rsp_result response))"

definition handleResponse ::
  "'r JsonRpcResponse \<Rightarrow> ('c, 'p, 'r) DAWClient \<Rightarrow> ('c, 'p, 'r) DAWClient" where
  "handleResponse response st =
     (case pendingRequests st (rsp_id response) of
        None \<Rightarrow> st
      | Some pending \<Rightarrow>
          st\<lparr> pendingRequests := (pendingRequests st)(rsp_id response := None),
              calls := calls st @ [(pending, responseOutcome response)] \<rparr>)"

text \<open>The socket's \<open>close\<close> event, and \<open>disconnect()\<close>.\<close>

definition socketClosed :: "('c, 'p, 'r) DAWClient \<Rightarrow> ('c, 'p, 'r) DAWClient" where
  "socketClosed st = st\<lparr> socketOpen := False \<rparr>"

text \<open>
  Everything that can happen to a client is one of these events; the event loop runs
  them one at a time, in any order.
\<close>

datatype ('c, 'p, 'r) client_event =
    Send 'c string 'p "error option"
  | WriteDone string "error option"
  | TimerFires string
  | Frame "'r JsonRpcResponse"
  | SocketClosed

fun step :: "('c, 'p, 'r) client_event \<Rightarrow> ('c, 'p, 'r) DAWClient \<Rightarrow> ('c, 'p, 'r) DAWClient" where
  "step (Send c method params conn) st = send c method params conn st"
| "step (WriteDone ident err) st = writeDone ident err st"
| "step (TimerFires ident) st = timerFires ident st"
| "step (Frame response) st = handleResponse response st"
| "step SocketClosed st = socketClosed st"

definition run :: "('c, 'p, 'r) client_event list \<Rightarrow> ('c, 'p, 'r) DAWClient \<Rightarrow> ('c, 'p, 'r) DAWClient" where
  "run evs st = fold step evs st"

text \<open>
  The sends of an event sequence that registered a request, each with the id it was
  given: the correspondence between ids and callers that the claims speak about.
\<close>

fun registrations ::
  "('c, 'p, 'r) client_event list \<Rightarrow> ('c, 'p, 'r) DAWClient \<Rightarrow> (string \<times> 'c) list" where
  "registrations [] st = []"
| "registrations (Send c method params conn # evs) st =
     (if \<not> socketOpen st \<and> conn \<noteq> None then []
      else [(String_nat (requestId st + 1), c)])
     @ registrations evs (send c method params conn st)"
| "registrations (e # evs) st = registrations evs (step e st)"

section \<open>Notions used in the statements and proofs about the channel\<close>

text \<open>The number that a string of decimal digits denotes (to show that ids are distinct).\<close>

definition digitsValue :: "string \<Rightarrow> nat" where
  "digitsValue s = foldl (\<lambda>a ch. 10 * a + (of_char ch - 48)) 0 s"

text \<open>
  An invariant of the client: a pending request still has its timer, with the same
  caller, and the ids that have a timer were given out by the counter.
\<close>

definition wellFormed :: "('c, 'p, 'r) DAWClient \<Rightarrow> bool" where
  "wellFormed st \<longleftrightarrow>
     (\<forall>i c. pendingRequests st i = Some c \<longrightarrow> (\<exists>d. timers st i = Some (c, d))) \<and>
     (\<forall>i. timers st i \<noteq> None \<longrightarrow> (\<exists>k. k \<le> requestId st \<and> i = String_nat k))"

text \<open>Several callers send, one after the other, on a connected (or connecting) socket.\<close>

definition sendEvents :: "('c \<times> string \<times> 'p) list \<Rightarrow> ('c, 'p, 'r) client_event list" where
  "sendEvents reqs = map (\<lambda>(c, method, params). Send c method params None) reqs"

text \<open>
  The events that settle or remove the request \<open>i\<close>: a frame with its id, a failed
  write of it, the expiry of its timer.
\<close>

fun touches :: "string \<Rightarrow> ('c, 'p, 'r) client_event \<Rightarrow> bool" where
  "touches i (Frame response) = (rsp_id response = i)"
| "touches i (WriteDone ident err) = (ident = i \<and> err \<noteq> None)"
| "touches i (TimerFires ident) = (ident = i)"
| "touches i _ = False"

section \<open>The backend as the handlers see it (DAWClientManager.send)\<close>

text \<open>
  A handler awaits one \<open>dawManager.send(method, params, daw)\<close> at a time, so to a handler
  the manager is a function from the request to its result or its rejection. The commands
  are the protocol methods with their parameters; \<open>'n\<close> is a JSON value that the handlers
  pass on without looking inside (a note, the parameters of a note command, the value of
  a property, the description of a clip).
  A slot that the code may read from an empty array (\<open>emptySlots[0]\<close>) is an
  \<open>int option\<close>, \<open>None\<close> standing for JavaScript's \<open>undefined\<close> and \<open>NaN\<close>.
  The parameter \<open>count\<close> of the source is written \<open>cnt\<close>.
\<close>

text \<open>
  The properties of a note that handleBatchSetNoteProperties can set (the keys that the
  type of its argument declares besides \<open>x\<close> and \<open>y\<close>), and its table
  \<open>propertyCommands\<close> from the property to the method.
  \<open>ClipSetNoteProperty prop position value\<close> is the command of that table for the note at
  \<open>position\<close> (its \<open>x\<close> and \<open>y\<close>); the value travels as \<open>muted\<close> for the property
  \<open>muted\<close> and as \<open>value\<close> for the others.
\<close>

datatype NoteProperty =
  Velocity | Duration | Gain | Pan | Pressure | Timbre | Transpose | Chance | Muted

fun propertyCommands :: "NoteProperty \<Rightarrow> string" where
  "propertyCommands Velocity = ''clip.setNoteVelocity''"
| "propertyCommands Duration = ''clip.setNoteDuration''"
| "propertyCommands Gain = ''clip.setNoteGain''"
| "propertyCommands Pan = ''clip.setNotePan''"
| "propertyCommands Pressure = ''clip.setNotePressure''"
| "propertyCommands Timbre = ''clip.setNoteTimbre''"
| "propertyCommands Transpose = ''clip.setNoteTranspose''"
| "propertyCommands Chance = ''clip.setNoteChance''"
| "propertyCommands Muted = ''clip.setNoteMuted''"

datatype 'n command =
    ProjectGetInfo
  | ClipGetSelection
  | ClipSelect int "int option"
  | ClipFindEmptySlots int "int option" int
  | ClipCreateScene int
  | ClipGetSceneCount
  | ClipHasContent int int
  | ClipCreate int "int option" real
  | ClipDelete int int
  | ClipSetName string
  | ClipMoveNote 'n
  | TrackDelete int
  | ClipSetNotes "'n list"
  | ClipSetNote 'n
  | ClipClearAllNotes
  | ClipClearNote 'n
  | ClipSetNoteProperty NoteProperty 'n 'n
  | ClipTranspose 'n
  | ClipGetNotes
  | ClipList int
  | TrackCreate string "int option"
  | TrackSetName int string
  | TrackSetVolume int real
  | TrackSetMute int bool
  | TrackSetSolo int bool

fun methodName :: "'n command \<Rightarrow> string" where
  "methodName ProjectGetInfo = ''project.getInfo''"
| "methodName ClipGetSelection = ''clip.getSelection''"
| "methodName (ClipSelect trackIndex slotIndex) = ''clip.select''"
| "methodName (ClipFindEmptySlots trackIndex startSlot cnt) = ''clip.findEmptySlots''"
| "methodName (ClipCreateScene cnt) = ''clip.createScene''"
| "methodName ClipGetSceneCount = ''clip.getSceneCount''"
| "methodName (ClipHasContent trackIndex slotIndex) = ''clip.hasContent''"
| "methodName (ClipCreate trackIndex slotIndex lengthInBeats) = ''clip.create''"
| "methodName (ClipDelete trackIndex slotIndex) = ''clip.delete''"
| "methodName (ClipSetName name) = ''clip.setName''"
| "methodName (ClipMoveNote move) = ''clip.moveNote''"
| "methodName (TrackDelete index) = ''track.delete''"
| "methodName (ClipSetNotes notes) = ''clip.setNotes''"
| "methodName (ClipSetNote note) = ''clip.setNote''"
| "methodName ClipClearAllNotes = ''clip.clearAllNotes''"
| "methodName (ClipClearNote note) = ''clip.clearNote''"
| "methodName (ClipSetNoteProperty prop position v) = propertyCommands prop"
| "methodName (ClipTranspose semitones) = ''clip.transpose''"
| "methodName ClipGetNotes = ''clip.getNotes''"
| "methodName (ClipList trackIndex) = ''clip.list''"
| "methodName (TrackCreate type position) = ''track.create''"
| "methodName (TrackSetName index name) = ''track.setName''"
| "methodName (TrackSetVolume index volume) = ''track.setVolume''"
| "methodName (TrackSetMute index mute) = ''track.setMute''"
| "methodName (TrackSetSolo index solo) = ''track.setSolo''"

text \<open>
  What a handler does that the outside can observe: a command sent to a backend, or a
  suspension (\<open>setTimeout\<close>) of so many milliseconds.
\<close>

datatype 'n event = Sent DAWType "'n command" | Delay nat

text \<open>The results the handlers read, with the fields the TypeScript casts declare.\<close>

record Selection =
  sel_trackIndex :: int
  sel_slotIndex :: int

record EmptySlots =
  emptySlots :: "int list"
  found :: int
  requested :: int
  es_sceneCount :: int

record SceneCreated =
  cs_success :: bool
  created :: int
  cs_sceneCount :: int

text \<open>
  The manager: its default backend, and how the backends answer. An answer may depend on
  everything sent so far (the trace up to and including the request), so any backend,
  whatever its state and whatever the user does to it meanwhile, is one such manager.
  \<open>Inl\<close> is a rejected promise. The answer to \<open>clip.getNotes\<close> is its field \<open>notes\<close>
  (\<open>None\<close> when it is missing), the answer to \<open>clip.list\<close> its field \<open>clips\<close>, each clip
  with its \<open>slotIndex\<close> and the rest of its description, and the answer to
  \<open>track.create\<close> its field \<open>index\<close>.
\<close>

record 'n DAWClientManager =
  defaultDaw :: DAWType
  selectionReply :: "'n event list \<Rightarrow> error + Selection"
  emptySlotsReply :: "'n event list \<Rightarrow> error + EmptySlots"
  createSceneReply :: "'n event list \<Rightarrow> error + SceneCreated"
  sceneCountReply :: "'n event list \<Rightarrow> error + int"
  hasContentReply :: "'n event list \<Rightarrow> error + bool"
  ackReply :: "'n event list \<Rightarrow> error + unit"
  notesReply :: "'n event list \<Rightarrow> error + 'n list option"
  clipListReply :: "'n event list \<Rightarrow> error + (int \<times> 'n) list"
  trackCreateReply :: "'n event list \<Rightarrow> error + int option"

text \<open>\<open>getClient(daw)\<close> uses \<open>daw ?? this.defaultDaw\<close>.\<close>

definition targetDaw :: "'n DAWClientManager \<Rightarrow> DAWType option \<Rightarrow> DAWType" where
  "targetDaw dawManager daw = (case daw of Some d \<Rightarrow> d | None \<Rightarrow> defaultDaw dawManager)"

definition sendWith ::
  "('n event list \<Rightarrow> error + 'a) \<Rightarrow> 'n DAWClientManager \<Rightarrow> 'n command \<Rightarrow> DAWType option
     \<Rightarrow> 'n event list \<Rightarrow> (error + 'a) \<times> 'n event list" where
  "sendWith reply dawManager cmd daw tr =
     (let tr' = tr @ [Sent (targetDaw dawManager daw) cmd] in (reply tr', tr'))"

text \<open>A command whose result the caller does not read.\<close>

definition sendCmd ::
  "'n DAWClientManager \<Rightarrow> 'n command \<Rightarrow> DAWType option
     \<Rightarrow> 'n event list \<Rightarrow> (error + unit) \<times> 'n event list" where
  "sendCmd dawManager cmd daw tr = sendWith (ackReply dawManager) dawManager cmd daw tr"

definition delay :: "nat \<Rightarrow> 'n event list \<Rightarrow> 'n event list" where
  "delay ms tr = tr @ [Delay ms]"

section \<open>Backend resolver (helpers/daw-resolution.ts, DAWClientManager.checkConnections)\<close>

record Connection =
  conn_daw :: DAWType
  connected :: bool
  isDefault :: bool

text \<open>
  One probe: \<open>project.getInfo\<close> on the client of that backend; any rejection counts as
  not connected. \<open>Promise.all\<close> starts both probes; each goes to its own client, and the
  trace lists them in the order of \<open>dawTypes\<close>.
\<close>

definition probe ::
  "'n DAWClientManager \<Rightarrow> DAWType \<Rightarrow> 'n event list \<Rightarrow> Connection \<times> 'n event list" where
  "probe dawManager d tr =
     (case sendCmd dawManager ProjectGetInfo (Some d) tr of
        (Inr _, tr') \<Rightarrow>
          (\<lparr> conn_daw = d, connected = True, isDefault = (d = defaultDaw dawManager) \<rparr>, tr')
      | (Inl _, tr') \<Rightarrow>
          (\<lparr> conn_daw = d, connected = False, isDefault = (d = defaultDaw dawManager) \<rparr>, tr'))"

definition checkConnections ::
  "'n DAWClientManager \<Rightarrow> 'n event list \<Rightarrow> Connection list \<times> 'n event list" where
  "checkConnections dawManager tr =
     (let (c1, tr1) = probe dawManager Bitwig tr;
          (c2, tr2) = probe dawManager Ableton tr1
      in ([c1, c2], tr2))"

definition resolveDaw ::
  "DAWType option \<Rightarrow> 'n DAWClientManager \<Rightarrow> DAWType \<Rightarrow> 'n event list
     \<Rightarrow> DAWType \<times> 'n event list" where
  "resolveDaw explicitDaw dawManager configDefault tr =
     (case explicitDaw of
        Some d \<Rightarrow> (d, tr)
      | None \<Rightarrow>
          let (connections, tr') = checkConnections dawManager tr;
              connectedOnes = filter connected connections
          in (case connectedOnes of
                [c] \<Rightarrow> (conn_daw c, tr')
              | _ \<Rightarrow> (configDefault, tr')))"

section \<open>Implicit context resolver (helpers/clip-selection.ts)\<close>

record Config =
  selectionDelayMs :: nat
  requestTimeoutMs :: nat

record ClipIndices =
  trackIndex :: int
  slotIndex :: int

definition noClipSlotSelected :: string where
  "noClipSlotSelected =
     ''No clip slot selected. Select a slot in DAW or provide trackIndex/slotIndex (1-based).''"

definition resolveClipIndices ::
  "'n DAWClientManager \<Rightarrow> DAWType option \<Rightarrow> int option \<Rightarrow> int option \<Rightarrow> 'n event list
     \<Rightarrow> (error + ClipIndices) \<times> 'n event list" where
  "resolveClipIndices dawManager daw trackIndexArg slotIndexArg tr =
     (case (trackIndexArg, slotIndexArg) of
        (Some t, Some s) \<Rightarrow>
          (Inr \<lparr> trackIndex = toInternal t, slotIndex = toInternal s \<rparr>, tr)
      | _ \<Rightarrow>
          (case sendWith (selectionReply dawManager) dawManager ClipGetSelection daw tr of
             (Inl e, tr') \<Rightarrow> (Inl e, tr')
           | (Inr selection, tr') \<Rightarrow>
               if sel_trackIndex selection = - 1 \<or> sel_slotIndex selection = - 1
               then (Inl (Error noClipSlotSelected), tr')
               else (Inr \<lparr> trackIndex = sel_trackIndex selection,
                           slotIndex = sel_slotIndex selection \<rparr>, tr')))"


definition findEmptySlots ::
  "'n DAWClientManager \<Rightarrow> DAWType option \<Rightarrow> int \<Rightarrow> int option \<Rightarrow> int \<Rightarrow> 'n event list
     \<Rightarrow> (error + EmptySlots) \<times> 'n event list" where
  "findEmptySlots dawManager daw trackIdx startSlot cnt tr =
     sendWith (emptySlotsReply dawManager) dawManager
       (ClipFindEmptySlots trackIdx startSlot cnt) daw tr"

definition selectClipIfNeeded ::
  "'n DAWClientManager \<Rightarrow> Config \<Rightarrow> DAWType option \<Rightarrow> int option \<Rightarrow> int option
     \<Rightarrow> 'n event list \<Rightarrow> (error + unit) \<times> 'n event list" where
  "selectClipIfNeeded dawManager config daw trackIndexArg slotIndexArg tr =
     (case resolveClipIndices dawManager daw trackIndexArg slotIndexArg tr of
        (Inl e, tr') \<Rightarrow> (Inl e, tr')
      | (Inr indices, tr') \<Rightarrow>
          if trackIndexArg \<noteq> None \<and> slotIndexArg \<noteq> None
          then (case sendCmd dawManager
                       (ClipSelect (trackIndex indices) (Some (slotIndex indices))) daw tr' of
                  (Inl e, tr'') \<Rightarrow> (Inl e, tr'')
                | (Inr _, tr'') \<Rightarrow> (Inr (), delay (selectionDelayMs config) tr''))
          else (Inr (), tr'))"

section \<open>Auto-remediation (handlers/batch-clips.ts and handlers/clips.ts)\<close>

text \<open>
  \<open>findEmptySlotsWithAutoCreate\<close> returns the last capacity answer it has together with
  \<open>scenesCreated\<close>. The \<open>try\<close> block covers the expansion command and the second query:
  when either is rejected, the function goes on with what it has.
\<close>

definition findEmptySlotsWithAutoCreate ::
  "'n DAWClientManager \<Rightarrow> DAWType option \<Rightarrow> int \<Rightarrow> int option \<Rightarrow> int \<Rightarrow> 'n event list
     \<Rightarrow> (error + EmptySlots \<times> int) \<times> 'n event list" where
  "findEmptySlotsWithAutoCreate dawManager daw trackIdx startSlot cnt tr =
     (case findEmptySlots dawManager daw trackIdx startSlot cnt tr of
        (Inl e, tr1) \<Rightarrow> (Inl e, tr1)
      | (Inr emptyResult, tr1) \<Rightarrow>
          if found emptyResult < cnt
          then
            let scenesNeeded = cnt - found emptyResult
            in (case sendWith (createSceneReply dawManager) dawManager
                        (ClipCreateScene scenesNeeded) daw tr1 of
                  (Inl e, tr2) \<Rightarrow> (Inr (emptyResult, 0), tr2)
                | (Inr createResult, tr2) \<Rightarrow>
                    if cs_success createResult
                    then (case findEmptySlots dawManager daw trackIdx startSlot cnt
                                 (delay 50 tr2) of
                            (Inl e, tr3) \<Rightarrow> (Inr (emptyResult, created createResult), tr3)
                          | (Inr emptyResult', tr3) \<Rightarrow>
                              (Inr (emptyResult', created createResult), tr3))
                    else (Inr (emptyResult, 0), tr2))
          else (Inr (emptyResult, 0), tr1))"


section \<open>Batch orchestrator (handlers/batch-notes.ts, batch-tracks.ts, batch-clips.ts, operations.ts)\<close>

record BatchError =
  index :: int
  error :: string

record CreatedClip =
  cc_trackIndex :: int
  cc_slotIndex :: "int option"
  cc_lengthInBeats :: real
  cc_name :: "string option"

text \<open>
  The entries of \<open>clips\<close> in the result of handleBatchGetNotes and of \<open>tracks\<close> in the
  result of handleBatchListClips.
\<close>

record 'n ClipNotes =
  cn_trackIndex :: int
  cn_slotIndex :: int
  cn_notes :: "'n list"

record 'n TrackClips =
  tc_trackIndex :: int
  tc_clips :: "(int \<times> 'n) list"

text \<open>
  A field that the result object may lack is an option. The fields \<open>message\<close>, \<open>clips\<close>
  and \<open>tracks\<close> of the source are \<open>br_message\<close>, \<open>br_clips\<close> and \<open>br_tracks\<close>.
\<close>

record 'n BatchResult =
  success :: bool
  completed :: nat
  failed :: nat
  errors :: "BatchError list option"
  createdClips :: "CreatedClip list option"
  sceneCount :: "int option"
  scenesCreated :: "int option"
  br_message :: "string option"
  notesFound :: "nat option"
  br_clips :: "'n ClipNotes list option"
  br_tracks :: "'n TrackClips list option"
  createdIndices :: "int list option"

text \<open>
  The object that ends most handlers:
  \<open>{ success: errors.length === 0, completed, failed: errors.length,
      ...(errors.length > 0 && { errors }) }\<close>.
\<close>

definition batchResult :: "nat \<Rightarrow> BatchError list \<Rightarrow> 'n BatchResult" where
  "batchResult completedCount errorList =
     \<lparr> success = (length errorList = 0),
       completed = completedCount,
       failed = length errorList,
       errors = (if length errorList > 0 then Some errorList else None),
       createdClips = None, sceneCount = None, scenesCreated = None,
       br_message = None, notesFound = None, br_clips = None, br_tracks = None,
       createdIndices = None \<rparr>"


subsection \<open>The loop of the batch handlers\<close>



subsection \<open>handleBatchSetNotes\<close>


subsection \<open>handleBatchMoveNotes\<close>



subsection \<open>handleBatchDeleteTracks\<close>

text \<open>
  \<open>[...internalIndices].sort((a, b) => b - a)\<close>: a stable sort into descending order.
\<close>

definition sortDescending :: "int list \<Rightarrow> int list" where
  "sortDescending xs = sort_key (\<lambda>x. - x) xs"

fun deleteTracksLoop ::
  "'n DAWClientManager \<Rightarrow> DAWType \<Rightarrow> int list \<Rightarrow> nat \<Rightarrow> BatchError list
     \<Rightarrow> 'n event list \<Rightarrow> nat \<times> BatchError list \<times> 'n event list" where
  "deleteTracksLoop dawManager daw [] completedCount errorList tr = (completedCount, errorList, tr)"
| "deleteTracksLoop dawManager daw (sortedIndex # sortedIndices) completedCount errorList tr =
     (case sendCmd dawManager (TrackDelete sortedIndex) (Some daw) tr of
        (Inr _, tr') \<Rightarrow>
          deleteTracksLoop dawManager daw sortedIndices (completedCount + 1) errorList tr'
      | (Inl e, tr') \<Rightarrow>
          deleteTracksLoop dawManager daw sortedIndices completedCount
            (errorList @ [\<lparr> index = toUser sortedIndex, error = message e \<rparr>]) tr')"

definition handleBatchDeleteTracks ::
  "'n DAWClientManager \<Rightarrow> DAWType \<Rightarrow> int list \<Rightarrow> 'n event list
     \<Rightarrow> (error + 'n BatchResult) \<times> 'n event list" where
  "handleBatchDeleteTracks dawManager daw trackIndices tr =
     (let internalIndices = map toInternal trackIndices;
          sortedIndices = sortDescending internalIndices
      in case deleteTracksLoop dawManager daw sortedIndices 0 [] tr of
           (completedCount, errorList, tr') \<Rightarrow>
             (Inr (batchResult completedCount errorList), tr'))"

subsection \<open>handleBatchCreateClips\<close>










subsection \<open>handleBatchClearNotes\<close>



subsection \<open>handleBatchSetNoteProperties\<close>





subsection \<open>handleBatchCreateTracks\<close>




subsection \<open>handleBatchSetTrackProperties\<close>





subsection \<open>handleBatchGetNotes\<close>






subsection \<open>handleBatchListClips\<close>





subsection \<open>handleBatchDeleteClips\<close>




subsection \<open>handleTransposeRange and handleBatchOperations (handlers/operations.ts)\<close>





section \<open>Observing a trace\<close>

text \<open>The events that a call added to the trace \<open>tr\<close> it started from.\<close>

definition since :: "'n event list \<Rightarrow> 'n event list \<Rightarrow> 'n event list" where
  "since tr tr' = drop (length tr) tr'"

fun isSelect :: "'n event \<Rightarrow> bool" where
  "isSelect (Sent d (ClipSelect t s)) = True"
| "isSelect _ = False"

fun isDelay :: "'n event \<Rightarrow> bool" where
  "isDelay (Delay ms) = True"
| "isDelay _ = False"

fun isCreateScene :: "'n event \<Rightarrow> bool" where
  "isCreateScene (Sent d (ClipCreateScene n)) = True"
| "isCreateScene _ = False"

fun isFindEmptySlots :: "'n event \<Rightarrow> bool" where
  "isFindEmptySlots (Sent d (ClipFindEmptySlots t s n)) = True"
| "isFindEmptySlots _ = False"

section \<open>Concrete backends for the examples\<close>

text \<open>
  A backend with slot (track 2, slot 0) selected, four scenes, no free slot, no support
  for creating scenes, and every other command acknowledged.
\<close>

definition exampleManager :: "nat DAWClientManager" where
  "exampleManager =
     \<lparr> defaultDaw = Bitwig,
       selectionReply = (\<lambda>tr. Inr \<lparr> sel_trackIndex = 2, sel_slotIndex = 0 \<rparr>),
       emptySlotsReply =
         (\<lambda>tr. Inr \<lparr> emptySlots = [], found = 0, requested = 1, es_sceneCount = 4 \<rparr>),
       createSceneReply = (\<lambda>tr. Inl (Error ''Scene creation is not supported'')),
       sceneCountReply = (\<lambda>tr. Inr 4),
       hasContentReply = (\<lambda>tr. Inr False),
       ackReply = (\<lambda>tr. Inr ()),
       notesReply = (\<lambda>tr. Inr (Some [])),
       clipListReply = (\<lambda>tr. Inr []),
       trackCreateReply = (\<lambda>tr. Inr (Some 0)) \<rparr>"

text \<open>The same backend with nothing selected.\<close>

definition nothingSelected :: "nat DAWClientManager" where
  "nothingSelected =
     exampleManager \<lparr> selectionReply := (\<lambda>tr. Inr \<lparr> sel_trackIndex = - 1, sel_slotIndex = - 1 \<rparr>) \<rparr>"

text \<open>
  A backend that creates scenes on request: the capacity query finds nothing before the
  first \<open>clip.createScene\<close> and one slot (slot 4) after it.
\<close>

definition growingManager :: "nat DAWClientManager" where
  "growingManager =
     exampleManager
       \<lparr> emptySlotsReply :=
           (\<lambda>tr. if list_ex isCreateScene tr
                  then Inr \<lparr> emptySlots = [4], found = 1, requested = 1, es_sceneCount = 5 \<rparr>
                  else Inr \<lparr> emptySlots = [], found = 0, requested = 1, es_sceneCount = 4 \<rparr>),
         createSceneReply :=
           (\<lambda>tr. Inr \<lparr> cs_success = True, created = 1, cs_sceneCount = 5 \<rparr>) \<rparr>"



section \<open>Notions used in the statements about batches\<close>

text \<open>
  The commands \<open>cmds\<close> are sent one after the other from the trace \<open>tr\<close>: the positions
  (0-based, in the order sent) of those the backend rejects, each with the message of
  its error.
\<close>

definition rejections ::
  "('n event list \<Rightarrow> error + unit) \<Rightarrow> 'n event list \<Rightarrow> 'n event list \<Rightarrow> (nat \<times> string) list" where
  "rejections reply tr cmds =
     concat (map (\<lambda>k. case reply (tr @ take (Suc k) cmds) of
                          Inl e \<Rightarrow> [(k, message e)]
                        | Inr _ \<Rightarrow> [])
                 [0 ..< length cmds])"

text \<open>The \<open>errors\<close> list of a result, empty when the field is absent.\<close>

definition errorsOf :: "'n BatchResult \<Rightarrow> BatchError list" where
  "errorsOf res = (case errors res of None \<Rightarrow> [] | Some es \<Rightarrow> es)"

text \<open>
  The bodies of the items run one after the other: \<open>itemRuns body items kept tr\<close> lists,
  item by item, what the body of the item returns when it starts from the lists and the
  trace that the body of the item before it has left, whatever that body's outcome (the
  first item starts from \<open>kept\<close> and \<open>tr\<close>).
\<close>

fun itemRuns ::
  "('s \<Rightarrow> 'a \<Rightarrow> 'n event list \<Rightarrow> (string + 'r) \<times> 's \<times> 'n event list) \<Rightarrow> 'a list \<Rightarrow> 's
     \<Rightarrow> 'n event list \<Rightarrow> ((string + 'r) \<times> 's \<times> 'n event list) list" where
  "itemRuns body [] kept tr = []"
| "itemRuns body (item # items) kept tr =
     (case body kept item tr of
        (r, kept', tr') \<Rightarrow> (r, kept', tr') # itemRuns body items kept' tr')"

text \<open>
  The runs that failed: their positions in the list, counted from \<open>k\<close>, in ascending
  order, each with the text of its error.
\<close>

fun failuresFrom :: "nat \<Rightarrow> ((string + 'r) \<times> 'x) list \<Rightarrow> (nat \<times> string) list" where
  "failuresFrom k [] = []"
| "failuresFrom k ((Inl text, x) # runs) = (k, text) # failuresFrom (Suc k) runs"
| "failuresFrom k ((Inr r, x) # runs) = failuresFrom (Suc k) runs"

definition failures :: "((string + 'r) \<times> 'x) list \<Rightarrow> (nat \<times> string) list" where
  "failures runs = failuresFrom 0 runs"

text \<open>The lists kept and the trace after the last run.\<close>

definition keptAfter :: "((string + 'r) \<times> 's \<times> 'n event list) list \<Rightarrow> 's \<Rightarrow> 's" where
  "keptAfter runs kept = last (kept # map (\<lambda>run. fst (snd run)) runs)"

definition traceAfter ::
  "((string + 'r) \<times> 's \<times> 'n event list) list \<Rightarrow> 'n event list \<Rightarrow> 'n event list" where
  "traceAfter runs tr = last (tr # map (\<lambda>run. snd (snd run)) runs)"

text \<open>
  What a handler returned, \<open>out\<close>, is the outcome of a batch over \<open>items\<close> with this body,
  started from \<open>kept\<close> and \<open>tr\<close>: the handler returned a result and did not throw; the
  trace it leaves is the trace after the body of every item has run; \<open>failed\<close> counts the
  runs that failed and \<open>completed\<close> the others; \<open>success\<close> says that none failed; and the
  field \<open>errors\<close> is there exactly when one did.
\<close>

definition attemptsAll ::
  "('s \<Rightarrow> 'a \<Rightarrow> 'n event list \<Rightarrow> (string + 'r) \<times> 's \<times> 'n event list) \<Rightarrow> 'a list \<Rightarrow> 's
     \<Rightarrow> 'n event list \<Rightarrow> (error + 'n BatchResult) \<times> 'n event list \<Rightarrow> bool" where
  "attemptsAll body items kept tr out =
     (case out of
        (Inl e, tr') \<Rightarrow> False
      | (Inr res, tr') \<Rightarrow>
          tr' = traceAfter (itemRuns body items kept tr) tr
          \<and> failed res = length (failures (itemRuns body items kept tr))
          \<and> completed res + failed res = length items
          \<and> success res = (failed res = 0)
          \<and> (errors res = None) = (failed res = 0))"

text \<open>
  The entries of \<open>errors\<close> in what a handler returned are those of the runs that failed,
  in ascending order, each with the position of its item in \<open>items\<close> and the text of its
  error.
\<close>

definition taggedByPosition ::
  "('s \<Rightarrow> 'a \<Rightarrow> 'n event list \<Rightarrow> (string + 'r) \<times> 's \<times> 'n event list) \<Rightarrow> 'a list \<Rightarrow> 's
     \<Rightarrow> 'n event list \<Rightarrow> (error + 'n BatchResult) \<times> 'n event list \<Rightarrow> bool" where
  "taggedByPosition body items kept tr out =
     (case out of
        (Inl e, tr') \<Rightarrow> False
      | (Inr res, tr') \<Rightarrow>
          errorsOf res = map (\<lambda>(k, text). \<lparr> index = int k, error = text \<rparr>)
                           (failures (itemRuns body items kept tr)))"

text \<open>The shape of a batch result over \<open>n\<close> items.\<close>

definition aggregates :: "nat \<Rightarrow> 'n BatchResult \<Rightarrow> bool" where
  "aggregates n res \<longleftrightarrow>
     completed res + failed res = n \<and>
     success res = (failed res = 0) \<and>
     (case errors res of
        None \<Rightarrow> failed res = 0
      | Some es \<Rightarrow> failed res > 0 \<and> length es = failed res)"

text \<open>
  What \<open>track.delete\<close> does to the track list of the DAW (TrackHandler.deleteTrack
  deletes the track at that position of the bank): the tracks behind it move up by one.
\<close>

definition removeAt :: "nat \<Rightarrow> 'a list \<Rightarrow> 'a list" where
  "removeAt i xs = take i xs @ drop (Suc i) xs"

section \<open>Properties\<close>

subsection \<open>Address normalizer\<close>

lemma ulp_small: "\<bar>x\<bar> < 2 ^ 53 \<Longrightarrow> ulp x = 1"
proof -
  assume "\<bar>x\<bar> < 2 ^ 53"
  then have "nat \<bar>x\<bar> < 2 ^ 53" by (simp add: nat_less_iff)
  then have "floorlog 2 (nat \<bar>x\<bar>) \<le> 53" by (simp add: floorlog_le_iff)
  then show ?thesis by (simp add: ulp_def)
qed

lemma ulp_next: "2 ^ 53 \<le> \<bar>x\<bar> \<Longrightarrow> \<bar>x\<bar> < 2 ^ 54 \<Longrightarrow> ulp x = 2"
proof -
  assume a: "2 ^ 53 \<le> \<bar>x\<bar>" and b: "\<bar>x\<bar> < 2 ^ 54"
  from b have "nat \<bar>x\<bar> < 2 ^ 54" by (simp add: nat_less_iff)
  then have u: "floorlog 2 (nat \<bar>x\<bar>) \<le> 54" by (simp add: floorlog_le_iff)
  from a have "(2::nat) ^ (54 - 1) \<le> nat \<bar>x\<bar>" by (simp add: le_nat_iff)
  then have "54 \<le> floorlog 2 (nat \<bar>x\<bar>)" by (rule floorlog_geI) simp
  with u have "floorlog 2 (nat \<bar>x\<bar>) = 54" by simp
  then show ?thesis by (simp add: ulp_def)
qed

text \<open>Up to \<open>2 ^ 53\<close> in magnitude every integer is a double, and nothing is rounded.\<close>

lemma roundDouble_exact: "\<bar>x\<bar> \<le> 2 ^ 53 \<Longrightarrow> roundDouble x = x"
proof -
  assume a: "\<bar>x\<bar> \<le> 2 ^ 53"
  show ?thesis
  proof (cases "\<bar>x\<bar> < 2 ^ 53")
    case True
    then show ?thesis by (simp add: roundDouble_def ulp_small)
  next
    case False
    with a have e: "\<bar>x\<bar> = 2 ^ 53" by simp
    then have u: "ulp x = 2" by (simp add: ulp_next)
    from e have "x = 2 ^ 53 \<or> x = - (2 ^ 53)" by (simp add: abs_if split: if_splits)
    then show ?thesis using u
      by (auto simp: roundDouble_def Let_def)
  qed
qed

text \<open>
  Beyond \<open>2 ^ 53\<close> the odd integers are halfway between two doubles and go to the one
  with the even significand, on both sides of zero.
\<close>

lemma roundDouble_examples:
  "roundDouble 9007199254740993 = 9007199254740992"
  "roundDouble 9007199254740995 = 9007199254740996"
  "roundDouble (- 9007199254740993) = - 9007199254740992"
  "roundDouble (- 9007199254740995) = - 9007199254740996"
  "roundDouble 9007199254740994 = 9007199254740994"
  by (simp_all add: roundDouble_def ulp_next Let_def)

lemma toInternal_exact: "\<bar>n - 1\<bar> \<le> 2 ^ 53 \<Longrightarrow> toInternal n = n - 1"
  by (simp add: toInternal_def roundDouble_exact)

lemma toUser_exact: "\<bar>n + 1\<bar> \<le> 2 ^ 53 \<Longrightarrow> toUser n = n + 1"
  by (simp add: toUser_def roundDouble_exact)

lemma toInternal_in_range: "- (2 ^ 53) < n \<Longrightarrow> n \<le> 2 ^ 53 \<Longrightarrow> toInternal n = n - 1"
  by (rule toInternal_exact) (auto simp: abs_le_iff)

lemma toUser_in_range: "- (2 ^ 53) \<le> n \<Longrightarrow> n < 2 ^ 53 \<Longrightarrow> toUser n = n + 1"
  by (rule toUser_exact) (auto simp: abs_le_iff)

text \<open>
  The index \<open>2 ^ 53 + 2\<close> is a double. One less is not: it lies halfway between the
  doubles \<open>2 ^ 53\<close> and \<open>2 ^ 53 + 2\<close> and rounds to \<open>2 ^ 53\<close>, whose significand is even;
  and \<open>2 ^ 53 + 1\<close> rounds to \<open>2 ^ 53\<close> again. So the index does not come back.
\<close>

theorem index_round_trip_counterexample:
  "roundDouble 9007199254740994 = 9007199254740994
   \<and> toInternal 9007199254740994 = 9007199254740992
   \<and> toUser (toInternal 9007199254740994) = 9007199254740992"
proof -
  have a: "roundDouble 9007199254740994 = 9007199254740994"
    by (simp add: roundDouble_def ulp_next Let_def)
  have b: "roundDouble 9007199254740993 = 9007199254740992"
    by (simp add: roundDouble_def ulp_next Let_def)
  show ?thesis by (simp add: a b toInternal_def toUser_def)
qed

text \<open>
  C9 (amended). Address-normalization round-trip: for every integer n with
  \<open>- 2 ^ 53 < n \<le> 2 ^ 53\<close>, toInternal n = n - 1 and toUser (toInternal n) = n; for every
  integer n with \<open>- 2 ^ 53 \<le> n < 2 ^ 53\<close>, toUser n = n + 1 and toInternal (toUser n) = n.
  In particular the round trip holds for the 1-based user indices \<open>1 \<le> n \<le> 2 ^ 53\<close>.
\<close>

theorem index_round_trip:
  "(- (2 ^ 53) < n \<and> n \<le> 2 ^ 53 \<longrightarrow> toInternal n = n - 1 \<and> toUser (toInternal n) = n) \<and>
   (- (2 ^ 53) \<le> n \<and> n < 2 ^ 53 \<longrightarrow> toUser n = n + 1 \<and> toInternal (toUser n) = n)"
proof (intro conjI impI)
  assume a: "- (2 ^ 53) < n \<and> n \<le> 2 ^ 53"
  then show i: "toInternal n = n - 1" by (simp add: toInternal_in_range)
  from a have "toUser (n - 1) = (n - 1) + 1" by (intro toUser_in_range) auto
  then show "toUser (toInternal n) = n" by (simp add: i)
next
  assume a: "- (2 ^ 53) \<le> n \<and> n < 2 ^ 53"
  then show u: "toUser n = n + 1" by (simp add: toUser_in_range)
  from a have "toInternal (n + 1) = (n + 1) - 1" by (intro toInternal_in_range) auto
  then show "toInternal (toUser n) = n" by (simp add: u)
qed

theorem index_round_trip_witness:
  "toInternal 1 = 0 \<and> toUser (toInternal 1) = 1
   \<and> toUser 9007199254740991 = 9007199254740992
   \<and> toInternal (toUser 9007199254740991) = 9007199254740991"
proof -
  have "- (2 ^ 53) < (1 :: int) \<and> (1 :: int) \<le> 2 ^ 53" by simp
  with index_round_trip [of 1]
  have a: "toInternal 1 = 1 - 1" "toUser (toInternal 1) = 1" by blast+
  have "- (2 ^ 53) \<le> (9007199254740991 :: int) \<and> (9007199254740991 :: int) < 2 ^ 53" by simp
  with index_round_trip [of 9007199254740991]
  have b: "toUser 9007199254740991 = 9007199254740991 + 1"
    "toInternal (toUser 9007199254740991) = 9007199254740991" by blast+
  from a(1) have "toInternal 1 = 0" by simp
  moreover from b(1) have "toUser 9007199254740991 = 9007199254740992" by simp
  ultimately show ?thesis using a(2) b(2) by blast
qed

subsection \<open>Correlated channel\<close>

lemma of_char_digit: "d < 10 \<Longrightarrow> of_char (digit d) = 48 + d"
  by (simp add: digit_def)

lemma digitsValue_String_nat: "digitsValue (String_nat n) = n"
proof (induction n rule: String_nat.induct)
  case (1 n)
  show ?case
  proof (cases "n < 10")
    case True
    then show ?thesis
      by (subst String_nat.simps) (simp add: digitsValue_def of_char_digit)
  next
    case False
    have "digitsValue (String_nat (n div 10)) = n div 10" using 1 False by simp
    then show ?thesis using False
      by (subst String_nat.simps) (simp add: digitsValue_def of_char_digit)
  qed
qed

lemma String_nat_inject: "String_nat m = String_nat n \<Longrightarrow> m = n"
  by (metis digitsValue_String_nat)

lemma wellFormed_newClient: "wellFormed (newClient d t)"
  by (simp add: wellFormed_def newClient_def)

lemma timers_fresh:
  assumes "wellFormed st" and "requestId st < k"
  shows "timers st (String_nat k) = None"
proof (rule ccontr)
  assume "timers st (String_nat k) \<noteq> None"
  then obtain j where "j \<le> requestId st" and "String_nat k = String_nat j"
    using assms(1) unfolding wellFormed_def by blast
  then show False using assms(2) String_nat_inject by fastforce
qed

lemma pending_fresh:
  assumes "wellFormed st" and "requestId st < k"
  shows "pendingRequests st (String_nat k) = None"
proof (cases "pendingRequests st (String_nat k)")
  case None then show ?thesis .
next
  case (Some c)
  then have "timers st (String_nat k) \<noteq> None"
    using assms(1) unfolding wellFormed_def by fastforce
  then show ?thesis using timers_fresh[OF assms] by simp
qed

lemma send_ok:
  assumes "socketOpen st \<or> conn = None"
  shows "pendingRequests (send c m p conn st) = (pendingRequests st)(String_nat (requestId st + 1) \<mapsto> c)"
    and "timers (send c m p conn st) = (timers st)(String_nat (requestId st + 1) \<mapsto> (c, timeout st))"
    and "requestId (send c m p conn st) = requestId st + 1"
    and "calls (send c m p conn st) = calls st"
    and "socketOpen (send c m p conn st)"
  using assms by (auto simp: send_def Let_def)

lemma send_failed:
  assumes "\<not> socketOpen st" and "conn \<noteq> None"
  shows "send c m p conn st = st\<lparr> calls := calls st @ [(c, Rejected (the conn))] \<rparr>"
  using assms by (auto simp: send_def)

lemma wellFormed_send:
  assumes "wellFormed st"
  shows "wellFormed (send c m p conn st)"
proof (cases "socketOpen st \<or> conn = None")
  case False
  then show ?thesis using assms by (simp add: send_failed wellFormed_def)
next
  case True
  let ?n = "String_nat (requestId st + 1)"
  have "\<exists>d. timers (send c m p conn st) i = Some (c', d)"
    if "pendingRequests (send c m p conn st) i = Some c'" for i c'
  proof (cases "i = ?n")
    case True
    then show ?thesis using that \<open>socketOpen st \<or> conn = None\<close> by (simp add: send_ok)
  next
    case False
    then show ?thesis using that assms \<open>socketOpen st \<or> conn = None\<close>
      by (simp add: send_ok wellFormed_def)
  qed
  moreover have "\<exists>k. k \<le> requestId (send c m p conn st) \<and> i = String_nat k"
    if "timers (send c m p conn st) i \<noteq> None" for i
  proof (cases "i = ?n")
    case True
    then show ?thesis using \<open>socketOpen st \<or> conn = None\<close> by (auto simp: send_ok)
  next
    case False
    then have "timers st i \<noteq> None" using that \<open>socketOpen st \<or> conn = None\<close> by (simp add: send_ok)
    then obtain k where "k \<le> requestId st" "i = String_nat k"
      using assms unfolding wellFormed_def by blast
    then have "k \<le> requestId st + 1" by simp
    then show ?thesis using \<open>i = String_nat k\<close> \<open>socketOpen st \<or> conn = None\<close>
      by (auto simp: send_ok)
  qed
  ultimately show ?thesis unfolding wellFormed_def by blast
qed

lemma wellFormed_writeDone: "wellFormed st \<Longrightarrow> wellFormed (writeDone i err st)"
  unfolding wellFormed_def writeDone_def Let_def
  by (auto split: option.splits)

lemma wellFormed_timerFires: "wellFormed st \<Longrightarrow> wellFormed (timerFires i st)"
  unfolding wellFormed_def timerFires_def Let_def
  by (auto split: option.splits)

lemma wellFormed_handleResponse: "wellFormed st \<Longrightarrow> wellFormed (handleResponse r st)"
  unfolding wellFormed_def handleResponse_def
  by (auto split: option.splits)

lemma wellFormed_step: "wellFormed st \<Longrightarrow> wellFormed (step e st)"
  by (cases e)
     (simp_all add: wellFormed_send wellFormed_writeDone wellFormed_timerFires
        wellFormed_handleResponse, simp add: wellFormed_def socketClosed_def)

lemma wellFormed_run: "wellFormed st \<Longrightarrow> wellFormed (run evs st)"
  unfolding run_def by (induction evs arbitrary: st) (simp_all add: wellFormed_step)

lemma requestId_step: "requestId st \<le> requestId (step e st)"
  by (cases e)
     (auto simp: send_def writeDone_def timerFires_def handleResponse_def socketClosed_def Let_def
        split: option.splits)

lemma requestId_run: "requestId st \<le> requestId (run evs st)"
  unfolding run_def
proof (induction evs arbitrary: st)
  case Nil show ?case by simp
next
  case (Cons e evs)
  have "requestId st \<le> requestId (step e st)" by (rule requestId_step)
  also have "\<dots> \<le> requestId (fold step evs (step e st))" by (rule Cons.IH)
  finally show ?case by simp
qed

lemma run_Nil [simp]: "run [] st = st"
  by (simp add: run_def)

lemma run_Cons [simp]: "run (e # evs) st = run evs (step e st)"
  by (simp add: run_def)

lemma run_append: "run (xs @ ys) st = run ys (run xs st)"
  by (simp add: run_def)

lemma registrations_step:
  "registrations (e # evs) st =
     (case e of
        Send c m p conn \<Rightarrow>
          (if \<not> socketOpen st \<and> conn \<noteq> None then [] else [(String_nat (requestId st + 1), c)])
      | _ \<Rightarrow> [])
     @ registrations evs (step e st)"
  by (cases e) simp_all

lemma registrations_range:
  "(i, c) \<in> set (registrations evs st) \<Longrightarrow>
     \<exists>k. requestId st < k \<and> k \<le> requestId (run evs st) \<and> i = String_nat k"
proof (induction evs arbitrary: st)
  case Nil
  then show ?case by simp
next
  case (Cons e evs)
  from Cons.prems consider
      (new) m p conn where "e = Send c m p conn" "socketOpen st \<or> conn = None"
            "i = String_nat (requestId st + 1)"
    | (later) "(i, c) \<in> set (registrations evs (step e st))"
    by (auto simp: registrations_step split: client_event.splits if_splits)
  then show ?case
  proof cases
    case new
    have "requestId (step e st) \<le> requestId (run evs (step e st))" by (rule requestId_run)
    moreover have "requestId (step e st) = requestId st + 1" using new by (simp add: send_ok)
    ultimately show ?thesis using new(3) by auto
  next
    case later
    from Cons.IH[OF later] obtain k where
      "requestId (step e st) < k" "k \<le> requestId (run evs (step e st))" "i = String_nat k"
      by blast
    moreover have "requestId st \<le> requestId (step e st)" by (rule requestId_step)
    ultimately have "requestId st < k \<and> k \<le> requestId (run (e # evs) st) \<and> i = String_nat k"
      by simp
    then show ?thesis by blast
  qed
qed

lemma registrations_distinct: "distinct (map fst (registrations evs st))"
proof (induction evs arbitrary: st)
  case Nil
  show ?case by simp
next
  case (Cons e evs)
  have rest: "distinct (map fst (registrations evs (step e st)))" by (rule Cons.IH)
  show ?case
  proof (cases "\<exists>c m p conn. e = Send c m p conn \<and> (socketOpen st \<or> conn = None)")
    case False
    then have "registrations (e # evs) st = registrations evs (step e st)"
      by (auto simp: registrations_step split: client_event.splits)
    then show ?thesis using rest by simp
  next
    case True
    then obtain c m p conn where e: "e = Send c m p conn" "socketOpen st \<or> conn = None" by blast
    have notin: "String_nat (requestId st + 1) \<notin> fst ` set (registrations evs (step e st))"
    proof
      assume "String_nat (requestId st + 1) \<in> fst ` set (registrations evs (step e st))"
      then obtain c' where "(String_nat (requestId st + 1), c') \<in> set (registrations evs (step e st))"
        by auto
      from registrations_range[OF this] obtain k where
        "requestId (step e st) < k" "String_nat (requestId st + 1) = String_nat k" by blast
      moreover have "requestId (step e st) = requestId st + 1" using e by (simp add: send_ok)
      ultimately show False using String_nat_inject by fastforce
    qed
    have "registrations (e # evs) st
            = (String_nat (requestId st + 1), c) # registrations evs (step e st)"
      using e by auto
    then show ?thesis using rest notin by simp
  qed
qed

lemma pending_step_origin:
  assumes "pendingRequests (step e st) i = Some c"
  shows "pendingRequests st i = Some c \<or>
         (\<exists>m p conn. e = Send c m p conn \<and> (socketOpen st \<or> conn = None) \<and>
            i = String_nat (requestId st + 1))"
proof (cases e)
  case (Send c' m p conn)
  show ?thesis
  proof (cases "socketOpen st \<or> conn = None")
    case True
    then show ?thesis using assms Send by (auto simp: send_ok split: if_splits)
  next
    case False
    then show ?thesis using assms Send by (simp add: send_failed)
  qed
next
  case (WriteDone j err)
  then show ?thesis using assms
    by (auto simp: writeDone_def Let_def split: option.splits if_splits)
next
  case (TimerFires j)
  then show ?thesis using assms
    by (auto simp: timerFires_def Let_def split: option.splits if_splits)
next
  case (Frame r)
  then show ?thesis using assms
    by (auto simp: handleResponse_def split: option.splits if_splits)
next
  case SocketClosed
  then show ?thesis using assms by (simp add: socketClosed_def)
qed

lemma pending_run_origin:
  "pendingRequests (run evs st) i = Some c \<Longrightarrow>
     pendingRequests st i = Some c \<or> (i, c) \<in> set (registrations evs st)"
proof (induction evs arbitrary: st)
  case Nil
  then show ?case by simp
next
  case (Cons e evs)
  from Cons.prems have "pendingRequests (run evs (step e st)) i = Some c" by simp
  from Cons.IH[OF this] show ?case
  proof
    assume "pendingRequests (step e st) i = Some c"
    from pending_step_origin[OF this] show ?thesis
      by (auto simp: registrations_step)
  next
    assume "(i, c) \<in> set (registrations evs (step e st))"
    then show ?thesis by (simp add: registrations_step)
  qed
qed

lemma handleResponse_present:
  "pendingRequests st (rsp_id r) = Some c \<Longrightarrow>
     handleResponse r st =
       st\<lparr> pendingRequests := (pendingRequests st)(rsp_id r := None),
           calls := calls st @ [(c, responseOutcome r)] \<rparr>"
  by (simp add: handleResponse_def)

lemma handleResponse_absent:
  "pendingRequests st (rsp_id r) = None \<Longrightarrow> handleResponse r st = st"
  by (simp add: handleResponse_def)

lemma frames_settle:
  assumes "distinct (map rsp_id rs)"
      and "\<forall>r \<in> set rs. pendingRequests st (rsp_id r) \<noteq> None"
  shows "calls (run (map Frame rs) st) =
           calls st @ map (\<lambda>r. (the (pendingRequests st (rsp_id r)), responseOutcome r)) rs
         \<and> pendingRequests (run (map Frame rs) st) =
           (\<lambda>i. if i \<in> rsp_id ` set rs then None else pendingRequests st i)"
  using assms
proof (induction rs arbitrary: st)
  case Nil
  then show ?case by simp
next
  case (Cons r rs)
  from Cons.prems obtain c where c: "pendingRequests st (rsp_id r) = Some c" by auto
  let ?st = "handleResponse r st"
  have st': "pendingRequests ?st = (pendingRequests st)(rsp_id r := None)"
       "calls ?st = calls st @ [(c, responseOutcome r)]"
    using c by (simp_all add: handleResponse_present)
  have "rsp_id r \<notin> rsp_id ` set rs" using Cons.prems(1) by simp
  then have "rsp_id q \<noteq> rsp_id r" if "q \<in> set rs" for q using that by (metis imageI)
  then have others: "\<forall>q \<in> set rs. pendingRequests ?st (rsp_id q) = pendingRequests st (rsp_id q)"
    by (simp add: st')
  have "distinct (map rsp_id rs)" using Cons.prems(1) by simp
  moreover have "\<forall>q \<in> set rs. pendingRequests ?st (rsp_id q) \<noteq> None"
    using others Cons.prems(2) by simp
  ultimately have IH:
    "calls (run (map Frame rs) ?st) =
       calls ?st @ map (\<lambda>q. (the (pendingRequests ?st (rsp_id q)), responseOutcome q)) rs"
    "pendingRequests (run (map Frame rs) ?st) =
       (\<lambda>i. if i \<in> rsp_id ` set rs then None else pendingRequests ?st i)"
    using Cons.IH[of ?st] by simp_all
  have "map (\<lambda>q. (the (pendingRequests ?st (rsp_id q)), responseOutcome q)) rs
          = map (\<lambda>q. (the (pendingRequests st (rsp_id q)), responseOutcome q)) rs"
    using others by simp
  then have "calls (run (map Frame (r # rs)) st) =
      calls st @ map (\<lambda>q. (the (pendingRequests st (rsp_id q)), responseOutcome q)) (r # rs)"
    using IH(1) st'(2) c by simp
  moreover have "pendingRequests (run (map Frame (r # rs)) st) =
      (\<lambda>i. if i \<in> rsp_id ` set (r # rs) then None else pendingRequests st i)"
    using IH(2) st'(1) by (auto simp: fun_eq_iff)
  ultimately show ?case by blast
qed

lemma sendEvents_Cons:
  "sendEvents ((c, m, p) # reqs) = Send c m p None # sendEvents reqs"
  by (simp add: sendEvents_def)

lemma sends_requestId:
  "requestId (run (sendEvents reqs) st) = requestId st + length reqs"
proof (induction reqs arbitrary: st)
  case Nil
  show ?case by (simp add: sendEvents_def)
next
  case (Cons q reqs)
  obtain c m p where q: "q = (c, m, p)" by (cases q) auto
  show ?case unfolding q sendEvents_Cons
    by (simp add: Cons.IH send_ok)
qed

lemma sends_calls: "calls (run (sendEvents reqs) st) = calls st"
proof (induction reqs arbitrary: st)
  case Nil
  show ?case by (simp add: sendEvents_def)
next
  case (Cons q reqs)
  obtain c m p where q: "q = (c, m, p)" by (cases q) auto
  show ?case unfolding q sendEvents_Cons
    by (simp add: Cons.IH send_ok)
qed

lemma sends_registrations:
  "registrations (sendEvents reqs) st =
     zip (map String_nat [requestId st + 1 ..< requestId st + 1 + length reqs]) (map fst reqs)"
proof (induction reqs arbitrary: st)
  case Nil
  show ?case by (simp add: sendEvents_def)
next
  case (Cons q reqs)
  obtain c m p where q: "q = (c, m, p)" by (cases q) auto
  let ?st = "send c m p None st"
  let ?n = "requestId st + 1"
  have n: "requestId ?st = ?n" by (simp add: send_ok)
  have "?n < ?n + length (q # reqs)" by simp
  from upt_conv_Cons[OF this]
  have upt: "[?n ..< ?n + length (q # reqs)] = ?n # [?n + 1 ..< ?n + 1 + length reqs]"
    by simp
  have "registrations (sendEvents (q # reqs)) st
          = (String_nat ?n, c) # registrations (sendEvents reqs) ?st"
    by (simp add: q sendEvents_Cons)
  also have "registrations (sendEvents reqs) ?st =
     zip (map String_nat [?n + 1 ..< ?n + 1 + length reqs]) (map fst reqs)"
    unfolding Cons.IH[of ?st] n ..
  finally show ?case unfolding upt by (simp add: q)
qed

lemma sends_pending:
  "pendingRequests (run (sendEvents reqs) st) i =
     (case map_of (registrations (sendEvents reqs) st) i of
        Some c \<Rightarrow> Some c | None \<Rightarrow> pendingRequests st i)"
proof (induction reqs arbitrary: st)
  case Nil
  show ?case by (simp add: sendEvents_def)
next
  case (Cons q reqs)
  obtain c m p where q: "q = (c, m, p)" by (cases q) auto
  let ?st = "send c m p None st"
  let ?n = "requestId st + 1"
  let ?regs = "registrations (sendEvents reqs) ?st"
  have n: "requestId ?st = ?n"
    and pend: "pendingRequests ?st = (pendingRequests st)(String_nat ?n \<mapsto> c)"
    by (simp_all add: send_ok)
  have reg: "registrations (sendEvents (q # reqs)) st = (String_nat ?n, c) # ?regs"
    by (simp add: q sendEvents_Cons)
  have run: "run (sendEvents (q # reqs)) st = run (sendEvents reqs) ?st"
    by (simp add: q sendEvents_Cons)
  have notin: "map_of ?regs (String_nat ?n) = None"
  proof (cases "map_of ?regs (String_nat ?n)")
    case None then show ?thesis .
  next
    case (Some c')
    then have "(String_nat ?n, c') \<in> set ?regs" by (rule map_of_SomeD)
    from registrations_range[OF this] obtain k where
      "requestId ?st < k" "String_nat ?n = String_nat k" by blast
    then show ?thesis using n String_nat_inject by fastforce
  qed
  have IH: "pendingRequests (run (sendEvents reqs) ?st) i =
     (case map_of ?regs i of Some c \<Rightarrow> Some c | None \<Rightarrow> pendingRequests ?st i)"
    by (rule Cons.IH)
  show ?case
  proof (cases "i = String_nat ?n")
    case True
    then show ?thesis unfolding run reg IH using notin by (simp add: pend)
  next
    case False
    then show ?thesis unfolding run reg IH by (simp add: pend split: option.splits)
  qed
qed

lemma any_order:
  fixes st :: "('c, 'p, 'r) DAWClient"
  assumes wf: "wellFormed st"
      and perm: "mset (map rsp_id rs) = mset (map fst (registrations (sendEvents reqs) st))"
  shows "calls (run (sendEvents reqs @ map Frame rs) st) =
           calls st @ map (\<lambda>r. (the (map_of (registrations (sendEvents reqs) st) (rsp_id r)),
                                 responseOutcome r)) rs"
    and "pendingRequests (run (sendEvents reqs @ map Frame rs) st) = pendingRequests st"
proof -
  let ?regs = "registrations (sendEvents reqs :: ('c, 'p, 'r) client_event list) st"
  let ?st = "run (sendEvents reqs) st"
  have dist: "distinct (map rsp_id rs)"
    using perm registrations_distinct[of "sendEvents reqs" st]
    by (metis mset_eq_imp_distinct_iff)
  have ids: "rsp_id ` set rs = fst ` set ?regs"
    using perm by (metis mset_eq_setD set_map)
  have reg: "map_of ?regs (rsp_id r) \<noteq> None" if "r \<in> set rs" for r
  proof -
    have "rsp_id r \<in> fst ` set ?regs" using that ids by blast
    then show ?thesis by (simp add: map_of_eq_None_iff)
  qed
  have pend: "pendingRequests ?st (rsp_id r) = map_of ?regs (rsp_id r)" if "r \<in> set rs" for r
    using reg[OF that] by (auto simp: sends_pending)
  then have "\<forall>r \<in> set rs. pendingRequests ?st (rsp_id r) \<noteq> None"
    using reg by simp
  from frames_settle[OF dist this]
  have c: "calls (run (map Frame rs) ?st) =
           calls ?st @ map (\<lambda>r. (the (pendingRequests ?st (rsp_id r)), responseOutcome r)) rs"
    and p: "pendingRequests (run (map Frame rs) ?st) =
           (\<lambda>i. if i \<in> rsp_id ` set rs then None else pendingRequests ?st i)"
    by blast+
  have "map (\<lambda>r. (the (pendingRequests ?st (rsp_id r)), responseOutcome r)) rs
        = map (\<lambda>r. (the (map_of ?regs (rsp_id r)), responseOutcome r)) rs"
    using pend by simp
  then show "calls (run (sendEvents reqs @ map Frame rs) st) =
           calls st @ map (\<lambda>r. (the (map_of ?regs (rsp_id r)), responseOutcome r)) rs"
    using c by (simp add: run_append sends_calls)
  have "pendingRequests (run (map Frame rs) ?st) i = pendingRequests st i" for i
  proof (cases "i \<in> fst ` set ?regs")
    case True
    then obtain c where "(i, c) \<in> set ?regs" by auto
    from registrations_range[OF this] obtain k where "requestId st < k" "i = String_nat k"
      by blast
    then have "pendingRequests st i = None" using pending_fresh[OF wf] by simp
    then show ?thesis using True by (simp add: p ids)
  next
    case False
    then have "map_of ?regs i = None" by (simp add: map_of_eq_None_iff)
    then show ?thesis using False by (simp add: p ids sends_pending)
  qed
  then show "pendingRequests (run (sendEvents reqs @ map Frame rs) st) = pendingRequests st"
    by (auto simp: run_append)
qed

lemma config_step: "dawType (step e st) = dawType st \<and> timeout (step e st) = timeout st"
  by (cases e)
     (auto simp: send_def writeDone_def timerFires_def handleResponse_def socketClosed_def Let_def
        split: option.splits)

lemma config_run: "dawType (run evs st) = dawType st \<and> timeout (run evs st) = timeout st"
  by (induction evs arbitrary: st) (simp_all add: config_step)

lemma untouched_step:
  assumes wf: "wellFormed st" and p: "pendingRequests st i = Some c"
      and nt: "\<not> touches i e"
  shows "pendingRequests (step e st) i = Some c \<and> timers (step e st) i = timers st i"
proof -
  from wf p obtain d where tm: "timers st i = Some (c, d)"
    unfolding wellFormed_def by blast
  show ?thesis
  proof (cases e)
    case (Send c' m p' conn)
    show ?thesis
    proof (cases "socketOpen st \<or> conn = None")
      case True
      have "timers st (String_nat (requestId st + 1)) = None"
        by (rule timers_fresh[OF wf]) simp
      then have "i \<noteq> String_nat (requestId st + 1)" using tm by auto
      then show ?thesis using True p Send by (simp add: send_ok)
    next
      case False
      then show ?thesis using p Send by (simp add: send_failed)
    qed
  next
    case (WriteDone j err)
    then show ?thesis using p nt
      by (auto simp: writeDone_def Let_def split: option.splits)
  next
    case (TimerFires j)
    then show ?thesis using p nt
      by (auto simp: timerFires_def Let_def split: option.splits)
  next
    case (Frame r)
    then show ?thesis using p nt
      by (auto simp: handleResponse_def split: option.splits)
  next
    case SocketClosed
    then show ?thesis using p by (simp add: socketClosed_def)
  qed
qed

lemma untouched_run:
  assumes "wellFormed st" and "pendingRequests st i = Some c"
      and "\<forall>e \<in> set evs. \<not> touches i e"
  shows "pendingRequests (run evs st) i = Some c \<and> timers (run evs st) i = timers st i"
  using assms
proof (induction evs arbitrary: st)
  case Nil
  then show ?case by simp
next
  case (Cons e evs)
  have s: "pendingRequests (step e st) i = Some c \<and> timers (step e st) i = timers st i"
    using untouched_step[OF Cons.prems(1,2)] Cons.prems(3) by simp
  have "pendingRequests (run evs (step e st)) i = Some c
        \<and> timers (run evs (step e st)) i = timers (step e st) i"
    using Cons.IH[OF wellFormed_step[OF Cons.prems(1)]] s Cons.prems(3) by simp
  then show ?case using s by simp
qed

lemma timerFires_pending:
  assumes "timers st i = Some (c, d)" and "pendingRequests st i \<noteq> None"
  shows "timerFires i st =
           st\<lparr> timers := (timers st)(i := None),
               pendingRequests := (pendingRequests st)(i := None),
               calls := calls st @ [(c, Rejected (timeoutError (dawType st)))] \<rparr>"
  using assms by (simp add: timerFires_def)

lemma never_pending_again:
  assumes wf: "wellFormed st" and none: "pendingRequests st i = None"
      and old: "i = String_nat k" "k \<le> requestId st"
  shows "pendingRequests (run evs st) i = None"
proof (cases "pendingRequests (run evs st) i")
  case None then show ?thesis .
next
  case (Some c)
  from pending_run_origin[OF this] none have "(i, c) \<in> set (registrations evs st)" by simp
  from registrations_range[OF this] obtain j where "requestId st < j" "i = String_nat j" by blast
  then show ?thesis using old String_nat_inject by fastforce
qed

lemma String_nat_small:
  "String_nat 1 = ''1''" "String_nat 2 = ''2''" "String_nat 3 = ''3''" "String_nat 4 = ''4''"
  "String_nat (Suc 0) = ''1''" "String_nat (Suc (Suc 0)) = ''2''"
  by code_simp+

text \<open>
  C1. Correlation correctness on one channel. Let the client have processed any sequence
  of events (sends, write callbacks, timers, frames, in any interleaving). When a response
  frame is then processed while its id has a pending entry, the entry is removed and
  exactly one callback is called: that of the caller registered under the id, who is the
  one caller whose send was given this id; it is resolved with the result, or rejected
  with an error carrying the message of the frame's error. A frame whose id has no pending
  entry changes nothing. When further requests are sent and their responses arrive in any
  order, each response settles the caller of the request with its id, and the pending map
  is as before.
\<close>

theorem correlation_correctness:
  fixes evs :: "('c, 'p, 'r) client_event list"
    and rs :: "'r JsonRpcResponse list"
  assumes st: "st = run evs (newClient d t)"
  shows
    "(\<forall>c. pendingRequests st (rsp_id r) = Some c \<longrightarrow>
        handleResponse r st =
          st\<lparr> pendingRequests := (pendingRequests st)(rsp_id r := None),
              calls := calls st @ [(c, responseOutcome r)] \<rparr>
        \<and> (\<forall>c'. (rsp_id r, c') \<in> set (registrations evs (newClient d t)) \<longleftrightarrow> c' = c))
     \<and> (pendingRequests st (rsp_id r) = None \<longrightarrow> handleResponse r st = st)
     \<and> responseOutcome r =
         (case rsp_error r of None \<Rightarrow> Resolved (rsp_result r)
          | Some e \<Rightarrow> Rejected (Error (err_message e)))
     \<and> registrations (sendEvents reqs) st =
         zip (map String_nat [requestId st + 1 ..< requestId st + 1 + length reqs]) (map fst reqs)
     \<and> (mset (map rsp_id rs) = mset (map fst (registrations (sendEvents reqs) st)) \<longrightarrow>
          calls (run (sendEvents reqs @ map Frame rs) st) =
            calls st @ map (\<lambda>r. (the (map_of (registrations (sendEvents reqs) st) (rsp_id r)),
                                  responseOutcome r)) rs
          \<and> pendingRequests (run (sendEvents reqs @ map Frame rs) st) = pendingRequests st)"
proof -
  have wf: "wellFormed st" unfolding st by (rule wellFormed_run[OF wellFormed_newClient])
  have A: "handleResponse r st =
          st\<lparr> pendingRequests := (pendingRequests st)(rsp_id r := None),
              calls := calls st @ [(c, responseOutcome r)] \<rparr>
        \<and> (\<forall>c'. (rsp_id r, c') \<in> set (registrations evs (newClient d t)) \<longleftrightarrow> c' = c)"
    if p: "pendingRequests st (rsp_id r) = Some c" for c
  proof -
    have "pendingRequests (newClient d t :: ('c, 'p, 'r) DAWClient) (rsp_id r) = None"
      by (simp add: newClient_def)
    with pending_run_origin[OF p[unfolded st]]
    have mem: "(rsp_id r, c) \<in> set (registrations evs (newClient d t))" by simp
    have "c' = c" if "(rsp_id r, c') \<in> set (registrations evs (newClient d t))" for c'
      using registrations_distinct[of evs "newClient d t"] that mem
      by (rule eq_key_imp_eq_value)
    with mem show ?thesis using handleResponse_present[OF p] by blast
  qed
  have B: "pendingRequests st (rsp_id r) = None \<longrightarrow> handleResponse r st = st"
    by (simp add: handleResponse_absent)
  have C: "responseOutcome r =
         (case rsp_error r of None \<Rightarrow> Resolved (rsp_result r)
          | Some e \<Rightarrow> Rejected (Error (err_message e)))"
    by (simp add: responseOutcome_def split: option.splits)
  note D = sends_registrations[of reqs st]
  note E = any_order[OF wf, of rs reqs]
  from A B C D E show ?thesis by blast
qed

theorem correlation_correctness_witness:
  "pendingRequests
     (run [Send ''alice'' ''track.list'' () None, Send ''bob'' ''clip.list'' () None]
        (newClient Bitwig 10000 :: (string, unit, nat) DAWClient)) ''2'' = Some ''bob''
   \<and> calls (handleResponse \<lparr> rsp_id = ''2'', rsp_result = 7, rsp_error = None \<rparr>
       (run [Send ''alice'' ''track.list'' () None, Send ''bob'' ''clip.list'' () None]
          (newClient Bitwig 10000 :: (string, unit, nat) DAWClient)))
       = [(''bob'', Resolved 7)]
   \<and> calls (run (sendEvents [(''carol'', ''clip.select'', ()), (''dave'', ''clip.create'', ())]
               @ map Frame
                   [\<lparr> rsp_id = ''4'', rsp_result = 0,
                      rsp_error = Some \<lparr> err_code = - 32601, err_message = ''Method not found'' \<rparr> \<rparr>,
                    \<lparr> rsp_id = ''3'', rsp_result = 5, rsp_error = None \<rparr>])
        (run [Send ''alice'' ''track.list'' () None, Send ''bob'' ''clip.list'' () None]
          (newClient Bitwig 10000 :: (string, unit, nat) DAWClient)))
       = [(''dave'', Rejected (Error ''Method not found'')), (''carol'', Resolved 5)]"
proof -
  define evs :: "(string, unit, nat) client_event list"
    where "evs = [Send ''alice'' ''track.list'' () None, Send ''bob'' ''clip.list'' () None]"
  define st :: "(string, unit, nat) DAWClient" where "st = run evs (newClient Bitwig 10000)"
  define r :: "nat JsonRpcResponse"
    where "r = \<lparr> rsp_id = ''2'', rsp_result = 7, rsp_error = None \<rparr>"
  define reqs where "reqs = [(''carol'', ''clip.select'', ()), (''dave'', ''clip.create'', ())]"
  define rs :: "nat JsonRpcResponse list" where "rs =
     [\<lparr> rsp_id = ''4'', rsp_result = 0,
        rsp_error = Some \<lparr> err_code = - 32601, err_message = ''Method not found'' \<rparr> \<rparr>,
      \<lparr> rsp_id = ''3'', rsp_result = 5, rsp_error = None \<rparr>]"
  have p: "pendingRequests st (rsp_id r) = Some ''bob''"
    and n: "requestId st = 2" and c: "calls st = []"
    by (simp_all add: st_def evs_def r_def send_def newClient_def Let_def String_nat_small)
  note T = correlation_correctness[OF st_def, of r reqs rs]
  from T have regs: "registrations (sendEvents reqs) st =
         zip (map String_nat [requestId st + 1 ..< requestId st + 1 + length reqs]) (map fst reqs)"
    by blast
  have upt: "[3 ..< 5] = [3, 4 :: nat]" by (simp add: upt_rec)
  have regs': "registrations (sendEvents reqs) st = [(''3'', ''carol''), (''4'', ''dave'')]"
    unfolding regs n by (simp add: reqs_def upt String_nat_small)
  have perm: "mset (map rsp_id rs) = mset (map fst (registrations (sendEvents reqs) st))"
    unfolding regs' by (simp add: rs_def)
  from T p have 1: "calls (handleResponse r st) = calls st @ [(''bob'', responseOutcome r)]"
    by simp
  from T perm have 2: "calls (run (sendEvents reqs @ map Frame rs) st) =
            calls st @ map (\<lambda>r. (the (map_of (registrations (sendEvents reqs) st) (rsp_id r)),
                                  responseOutcome r)) rs"
    by blast
  have "calls (handleResponse r st) = [(''bob'', Resolved 7)]"
    unfolding 1 c by (simp add: r_def responseOutcome_def)
  moreover have "calls (run (sendEvents reqs @ map Frame rs) st) =
      [(''dave'', Rejected (Error ''Method not found'')), (''carol'', Resolved 5)]"
    unfolding 2 regs' c by (simp add: rs_def responseOutcome_def)
  ultimately show ?thesis
    using p unfolding st_def evs_def r_def reqs_def rs_def by simp
qed

text \<open>
  C2. Timeout isolation. A request is sent from any reachable state; its timer is started
  with the configured duration. If neither a response for its id nor a write error
  arrives before the timer expires, then at expiry the entry is still pending, it is
  removed, and the caller is rejected with the timeout error. After that, and after
  whatever else happens on the channel, a frame bearing that id leaves the client as it
  is. The expiry does not touch the socket, and the next send registers its request.
\<close>

theorem timeout_isolation:
  fixes evs0 evs evs' :: "('c, 'p, 'r) client_event list"
  assumes st0: "st0 = run evs0 (newClient d t)"
      and sent: "socketOpen st0 \<or> conn = None"
      and st1: "st1 = send c method params conn st0"
      and i: "i = String_nat (requestId st0 + 1)"
      and quiet: "\<forall>e \<in> set evs. \<not> touches i e"
      and st2: "st2 = run evs st1"
      and st3: "st3 = timerFires i st2"
  shows "timers st1 i = Some (c, t)
     \<and> pendingRequests st2 i = Some c
     \<and> pendingRequests st3 i = None
     \<and> calls st3 = calls st2 @ [(c, Rejected (timeoutError d))]
     \<and> socketOpen st3 = socketOpen st2
     \<and> (rsp_id r = i \<longrightarrow> handleResponse r (run evs' st3) = run evs' st3)
     \<and> pendingRequests (send c' method' params' None st3) (String_nat (requestId st3 + 1)) = Some c'"
proof -
  have wf0: "wellFormed st0" unfolding st0 by (rule wellFormed_run[OF wellFormed_newClient])
  have cfg0: "timeout st0 = t" "dawType st0 = d"
    unfolding st0 by (simp_all add: config_run newClient_def)
  have wf1: "wellFormed st1" unfolding st1 by (rule wellFormed_send[OF wf0])
  have p1: "pendingRequests st1 i = Some c" and t1: "timers st1 i = Some (c, t)"
    and n1: "requestId st1 = requestId st0 + 1"
    unfolding st1 i using sent cfg0 by (simp_all add: send_ok)
  have cfg1: "dawType st1 = d" unfolding st1 using cfg0 config_step[of "Send c method params conn" st0]
    by simp
  from untouched_run[OF wf1 p1 quiet]
  have p2: "pendingRequests st2 i = Some c" and t2: "timers st2 i = Some (c, t)"
    unfolding st2 using t1 by simp_all
  have wf2: "wellFormed st2" unfolding st2 by (rule wellFormed_run[OF wf1])
  have cfg2: "dawType st2 = d" unfolding st2 using cfg1 by (simp add: config_run)
  have n2: "requestId st0 + 1 \<le> requestId st2"
    unfolding st2 using requestId_run[of st1 evs] n1 by simp
  have f: "st3 = st2\<lparr> timers := (timers st2)(i := None),
               pendingRequests := (pendingRequests st2)(i := None),
               calls := calls st2 @ [(c, Rejected (timeoutError d))] \<rparr>"
    unfolding st3 using timerFires_pending[OF t2] p2 cfg2 by simp
  have p3: "pendingRequests st3 i = None" and c3: "calls st3 = calls st2 @ [(c, Rejected (timeoutError d))]"
    and s3: "socketOpen st3 = socketOpen st2" and n3: "requestId st3 = requestId st2"
    unfolding f by simp_all
  have wf3: "wellFormed st3" unfolding st3 by (rule wellFormed_timerFires[OF wf2])
  have "pendingRequests (run evs' st3) i = None"
    by (rule never_pending_again[OF wf3 p3 i]) (use n2 n3 in simp)
  then have late: "rsp_id r = i \<longrightarrow> handleResponse r (run evs' st3) = run evs' st3"
    by (simp add: handleResponse_absent)
  have again: "pendingRequests (send c' method' params' None st3) (String_nat (requestId st3 + 1)) = Some c'"
    by (simp add: send_ok)
  from t1 p2 p3 c3 s3 late again show ?thesis by blast
qed

theorem timeout_isolation_witness:
  "filter (touches ''1'')
      [Send ''bob'' ''clip.list'' () None,
       Frame \<lparr> rsp_id = ''2'', rsp_result = 3, rsp_error = None \<rparr>,
       WriteDone ''1'' None :: (string, unit, nat) client_event] = []
   \<and> calls (timerFires ''1''
        (run [Send ''bob'' ''clip.list'' () None,
              Frame \<lparr> rsp_id = ''2'', rsp_result = 3, rsp_error = None \<rparr>,
              WriteDone ''1'' None]
           (send ''alice'' ''clip.getNotes'' () None
              (newClient Ableton 5000 :: (string, unit, nat) DAWClient))))
       = [(''bob'', Resolved 3), (''alice'', Rejected (Error ''Request timeout (ableton)''))]
   \<and> handleResponse \<lparr> rsp_id = ''1'', rsp_result = 9, rsp_error = None \<rparr>
        (timerFires ''1''
          (run [Send ''bob'' ''clip.list'' () None,
                Frame \<lparr> rsp_id = ''2'', rsp_result = 3, rsp_error = None \<rparr>,
                WriteDone ''1'' None]
             (send ''alice'' ''clip.getNotes'' () None
                (newClient Ableton 5000 :: (string, unit, nat) DAWClient))))
       = timerFires ''1''
          (run [Send ''bob'' ''clip.list'' () None,
                Frame \<lparr> rsp_id = ''2'', rsp_result = 3, rsp_error = None \<rparr>,
                WriteDone ''1'' None]
             (send ''alice'' ''clip.getNotes'' () None
                (newClient Ableton 5000 :: (string, unit, nat) DAWClient)))"
proof -
  define st0 :: "(string, unit, nat) DAWClient" where "st0 = run [] (newClient Ableton 5000)"
  define st1 where "st1 = send ''alice'' ''clip.getNotes'' () None st0"
  define evs :: "(string, unit, nat) client_event list" where
    "evs = [Send ''bob'' ''clip.list'' () None,
            Frame \<lparr> rsp_id = ''2'', rsp_result = 3, rsp_error = None \<rparr>,
            WriteDone ''1'' None]"
  define st2 where "st2 = run evs st1"
  define st3 where "st3 = timerFires ''1'' st2"
  define late :: "nat JsonRpcResponse"
    where "late = \<lparr> rsp_id = ''1'', rsp_result = 9, rsp_error = None \<rparr>"
  have sent: "socketOpen st0 \<or> (None :: error option) = None" by simp
  have i: "''1'' = String_nat (requestId st0 + 1)"
    by (simp add: st0_def newClient_def String_nat_small)
  have quiet: "\<forall>e \<in> set evs. \<not> touches ''1'' e" by (simp add: evs_def)
  note T = timeout_isolation[OF st0_def sent st1_def i quiet st2_def st3_def,
      of late "[]" "''carol''" "''clip.select''" "()"]
  have c2: "calls st2 = [(''bob'', Resolved 3)]"
    by (simp add: st2_def evs_def st1_def st0_def send_def newClient_def Let_def
        handleResponse_def responseOutcome_def writeDone_def String_nat_small)
  from T have "calls st3 = calls st2 @ [(''alice'', Rejected (timeoutError Ableton))]"
    by blast
  then have a: "calls st3 = [(''bob'', Resolved 3),
                    (''alice'', Rejected (Error ''Request timeout (ableton)''))]"
    unfolding c2 by (simp add: timeoutError_def)
  from T have b: "handleResponse late st3 = st3" by (simp add: late_def)
  have "filter (touches ''1'') evs = []" by (simp add: evs_def)
  with a b show ?thesis
    unfolding st3_def st2_def st1_def st0_def evs_def late_def by simp
qed

subsection \<open>Sending, as equations\<close>

lemma sendWith_eq:
  "sendWith reply dawManager cmd daw tr =
     (reply (tr @ [Sent (targetDaw dawManager daw) cmd]), tr @ [Sent (targetDaw dawManager daw) cmd])"
  by (simp add: sendWith_def Let_def)

lemma sendCmd_eq:
  "sendCmd dawManager cmd daw tr =
     (ackReply dawManager (tr @ [Sent (targetDaw dawManager daw) cmd]),
      tr @ [Sent (targetDaw dawManager daw) cmd])"
  by (simp add: sendCmd_def sendWith_eq)

lemma resolveClipIndices_explicit:
  "resolveClipIndices dawManager daw (Some t) (Some s) tr =
     (Inr \<lparr> trackIndex = toInternal t, slotIndex = toInternal s \<rparr>, tr)"
  by (simp add: resolveClipIndices_def)

lemma resolveClipIndices_cursor:
  assumes "t = None \<or> s = None"
  shows "resolveClipIndices dawManager daw t s tr =
     (let tr' = tr @ [Sent (targetDaw dawManager daw) ClipGetSelection]
      in case selectionReply dawManager tr' of
           Inl e \<Rightarrow> (Inl e, tr')
         | Inr selection \<Rightarrow>
             if sel_trackIndex selection = - 1 \<or> sel_slotIndex selection = - 1
             then (Inl (Error noClipSlotSelected), tr')
             else (Inr \<lparr> trackIndex = sel_trackIndex selection,
                         slotIndex = sel_slotIndex selection \<rparr>, tr'))"
  using assms
  by (auto simp: resolveClipIndices_def sendWith_eq Let_def split: option.splits sum.splits)

lemma selectClipIfNeeded_explicit:
  "selectClipIfNeeded dawManager config daw (Some t) (Some s) tr =
     (let tr' = tr @ [Sent (targetDaw dawManager daw)
                        (ClipSelect (toInternal t) (Some (toInternal s)))]
      in case ackReply dawManager tr' of
           Inl e \<Rightarrow> (Inl e, tr')
         | Inr _ \<Rightarrow> (Inr (), tr' @ [Delay (selectionDelayMs config)]))"
  by (simp add: selectClipIfNeeded_def resolveClipIndices_explicit sendCmd_eq delay_def Let_def
      split: sum.splits)

lemma selectClipIfNeeded_cursor:
  assumes "t = None \<or> s = None"
  shows "selectClipIfNeeded dawManager config daw t s tr =
     (let tr' = tr @ [Sent (targetDaw dawManager daw) ClipGetSelection]
      in case selectionReply dawManager tr' of
           Inl e \<Rightarrow> (Inl e, tr')
         | Inr selection \<Rightarrow>
             if sel_trackIndex selection = - 1 \<or> sel_slotIndex selection = - 1
             then (Inl (Error noClipSlotSelected), tr')
             else (Inr (), tr'))"
  using assms
  by (auto simp: selectClipIfNeeded_def resolveClipIndices_cursor Let_def split: sum.splits)

lemma since_append [simp]: "since tr (tr @ xs) = xs"
  by (simp add: since_def)

lemma since_self [simp]: "since tr tr = []"
  by (simp add: since_def)


subsection \<open>Backend resolver\<close>

lemma probe_eq:
  "probe dawManager d tr =
     (\<lparr> conn_daw = d,
        connected = \<not> isl (ackReply dawManager (tr @ [Sent d ProjectGetInfo])),
        isDefault = (d = defaultDaw dawManager) \<rparr>,
      tr @ [Sent d ProjectGetInfo])"
  by (cases "ackReply dawManager (tr @ [Sent d ProjectGetInfo])")
     (simp_all add: probe_def sendCmd_eq targetDaw_def)

text \<open>
  C5. Backend resolution policy. With an explicit backend, resolveDaw returns it and sends
  nothing. Without one it probes Bitwig and Ableton with \<open>project.getInfo\<close>; a backend
  is reachable when its probe is not rejected. If exactly one is reachable the result is
  that one, whatever the configured default; if none or both are, it is the configured
  default.
\<close>

theorem backend_resolution:
  "resolveDaw (Some d) dawManager configDefault tr = (d, tr)
   \<and> resolveDaw None dawManager configDefault tr =
       (let tr1 = tr @ [Sent Bitwig ProjectGetInfo];
            tr2 = tr1 @ [Sent Ableton ProjectGetInfo];
            bitwigUp = \<not> isl (ackReply dawManager tr1);
            abletonUp = \<not> isl (ackReply dawManager tr2)
        in (if bitwigUp \<and> \<not> abletonUp then Bitwig
            else if abletonUp \<and> \<not> bitwigUp then Ableton
            else configDefault, tr2))"
  by (simp add: resolveDaw_def checkConnections_def probe_eq Let_def)

subsection \<open>Implicit context resolver\<close>

text \<open>
  With addressing omitted and nothing selected in the DAW, selectClipIfNeeded does not
  return: it has sent \<open>clip.getSelection\<close> and throws the error of resolveClipIndices.
\<close>

theorem implicit_selection_counterexample:
  "selectClipIfNeeded nothingSelected \<lparr> selectionDelayMs = 400, requestTimeoutMs = 10000 \<rparr>
       None None None []
     = (Inl (Error noClipSlotSelected), [Sent Bitwig ClipGetSelection])"
  by (simp add: selectClipIfNeeded_cursor nothingSelected_def exampleManager_def targetDaw_def)

text \<open>
  C6 (amended). Implicit selection delay. selectClipIfNeeded issues a \<open>clip.select\<close>
  command if and only if both trackIndex and slotIndex were supplied, and it is for the
  normalized (0-based) address. When that command is acknowledged, a suspension of
  \<open>selectionDelayMs\<close> follows and the function returns; when it is rejected, the
  function throws and there is no delay. When trackIndex or slotIndex is omitted there is
  no selection command and no delay, but one \<open>clip.getSelection\<close> query: the function
  returns when the query reports a selected slot, and throws when the query is rejected
  or reports -1 for the track or the slot.
\<close>

theorem implicit_selection:
  fixes dawManager :: "'n DAWClientManager"
  assumes r: "r = selectClipIfNeeded dawManager config daw trackIndexArg slotIndexArg tr"
      and d: "d = targetDaw dawManager daw"
  shows
    "(list_ex isSelect (since tr (snd r)) \<longleftrightarrow> trackIndexArg \<noteq> None \<and> slotIndexArg \<noteq> None)
     \<and> (list_ex isDelay (since tr (snd r)) \<longleftrightarrow>
          trackIndexArg \<noteq> None \<and> slotIndexArg \<noteq> None \<and> fst r = Inr ())
     \<and> (\<forall>t s. trackIndexArg = Some t \<and> slotIndexArg = Some s \<longrightarrow>
          since tr (snd r) =
            Sent d (ClipSelect (toInternal t) (Some (toInternal s)))
            # (if fst r = Inr () then [Delay (selectionDelayMs config)] else [])
          \<and> fst r =
              (case ackReply dawManager
                      (tr @ [Sent d (ClipSelect (toInternal t) (Some (toInternal s)))]) of
                 Inl e \<Rightarrow> Inl e | Inr _ \<Rightarrow> Inr ()))
     \<and> (trackIndexArg = None \<or> slotIndexArg = None \<longrightarrow>
          since tr (snd r) = [Sent d ClipGetSelection]
          \<and> fst r =
              (case selectionReply dawManager (tr @ [Sent d ClipGetSelection]) of
                 Inl e \<Rightarrow> Inl e
               | Inr selection \<Rightarrow>
                   if sel_trackIndex selection = - 1 \<or> sel_slotIndex selection = - 1
                   then Inl (Error noClipSlotSelected) else Inr ()))"
proof (cases "trackIndexArg = None \<or> slotIndexArg = None")
  case True
  then show ?thesis unfolding r d
    by (auto simp: selectClipIfNeeded_cursor Let_def split: sum.splits)
next
  case False
  then obtain t s where "trackIndexArg = Some t" "slotIndexArg = Some s" by auto
  then show ?thesis unfolding r d
    by (auto simp: selectClipIfNeeded_explicit Let_def split: sum.splits)
qed

theorem implicit_selection_witness:
  "selectClipIfNeeded exampleManager \<lparr> selectionDelayMs = 400, requestTimeoutMs = 10000 \<rparr>
       (Some Ableton) (Some 3) (Some 1) []
     = (Inr (), [Sent Ableton (ClipSelect 2 (Some 0)), Delay 400])
   \<and> selectClipIfNeeded exampleManager \<lparr> selectionDelayMs = 400, requestTimeoutMs = 10000 \<rparr>
       (Some Ableton) None None []
     = (Inr (), [Sent Ableton ClipGetSelection])"
proof -
  let ?cfg = "\<lparr> selectionDelayMs = 400, requestTimeoutMs = 10000 \<rparr>"
  have d: "Ableton = targetDaw exampleManager (Some Ableton)" by (simp add: targetDaw_def)
  have ack: "ackReply exampleManager tr = Inr ()" for tr by (simp add: exampleManager_def)
  have sel: "selectionReply exampleManager tr = Inr \<lparr> sel_trackIndex = 2, sel_slotIndex = 0 \<rparr>"
    for tr by (simp add: exampleManager_def)
  note A = implicit_selection[OF refl d,
      where config = ?cfg and trackIndexArg = "Some 3" and slotIndexArg = "Some 1" and tr = "[]"]
  note B = implicit_selection[OF refl d,
      where config = ?cfg and trackIndexArg = None and slotIndexArg = None and tr = "[]"]
  have a: "selectClipIfNeeded exampleManager ?cfg (Some Ableton) (Some 3) (Some 1) []
          = (Inr (), [Sent Ableton (ClipSelect 2 (Some 0)), Delay 400])"
    using A by (simp add: prod_eq_iff since_def ack toInternal_exact)
  have b: "selectClipIfNeeded exampleManager ?cfg (Some Ableton) None None []
          = (Inr (), [Sent Ableton ClipGetSelection])"
    using B by (simp add: prod_eq_iff since_def sel)
  from a b show ?thesis by simp
qed

text \<open>
  C10. Partial explicit addressing is ignored. When exactly one of trackIndex and
  slotIndex is supplied, resolveClipIndices does what it does when both are omitted: it
  sends \<open>clip.getSelection\<close>; a rejection is passed on; an answer with -1 for the track
  or the slot gives the error "No clip slot selected"; any other answer is returned
  unchanged. In this case selectClipIfNeeded sends only that query: no selection command
  and no delay.
\<close>

theorem partial_addressing_ignored:
  fixes dawManager :: "'n DAWClientManager"
  assumes partial: "(trackIndexArg = None) \<noteq> (slotIndexArg = None)"
      and tr': "tr' = tr @ [Sent (targetDaw dawManager daw) ClipGetSelection]"
  shows
    "resolveClipIndices dawManager daw trackIndexArg slotIndexArg tr
       = resolveClipIndices dawManager daw None None tr
     \<and> snd (resolveClipIndices dawManager daw trackIndexArg slotIndexArg tr) = tr'
     \<and> (\<forall>e. selectionReply dawManager tr' = Inl e \<longrightarrow>
          fst (resolveClipIndices dawManager daw trackIndexArg slotIndexArg tr) = Inl e)
     \<and> (\<forall>selection. selectionReply dawManager tr' = Inr selection \<longrightarrow>
          fst (resolveClipIndices dawManager daw trackIndexArg slotIndexArg tr) =
            (if sel_trackIndex selection = - 1 \<or> sel_slotIndex selection = - 1
             then Inl (Error noClipSlotSelected)
             else Inr \<lparr> trackIndex = sel_trackIndex selection,
                        slotIndex = sel_slotIndex selection \<rparr>))
     \<and> snd (selectClipIfNeeded dawManager config daw trackIndexArg slotIndexArg tr) = tr'
     \<and> \<not> list_ex isSelect
            (since tr (snd (selectClipIfNeeded dawManager config daw trackIndexArg slotIndexArg tr)))
     \<and> \<not> list_ex isDelay
            (since tr (snd (selectClipIfNeeded dawManager config daw trackIndexArg slotIndexArg tr)))"
proof -
  from partial have one: "trackIndexArg = None \<or> slotIndexArg = None" by auto
  have none: "(None :: int option) = None \<or> (None :: int option) = None" by simp
  show ?thesis unfolding tr'
    by (auto simp: resolveClipIndices_cursor[OF one] resolveClipIndices_cursor[OF none]
        selectClipIfNeeded_cursor[OF one] Let_def split: sum.splits)
qed

theorem partial_addressing_ignored_witness:
  "resolveClipIndices exampleManager None (Some 7) None []
     = (Inr \<lparr> trackIndex = 2, slotIndex = 0 \<rparr>, [Sent Bitwig ClipGetSelection])
   \<and> resolveClipIndices nothingSelected None None (Some 7) []
     = (Inl (Error noClipSlotSelected), [Sent Bitwig ClipGetSelection])"
proof -
  let ?cfg = "\<lparr> selectionDelayMs = 400, requestTimeoutMs = 10000 \<rparr>"
  have p1: "((Some 7 :: int option) = None) \<noteq> ((None :: int option) = None)" by simp
  have p2: "((None :: int option) = None) \<noteq> ((Some 7 :: int option) = None)" by simp
  have t1: "[Sent Bitwig ClipGetSelection] = [] @ [Sent (targetDaw exampleManager None) ClipGetSelection]"
    by (simp add: targetDaw_def exampleManager_def)
  have t2: "[Sent Bitwig ClipGetSelection] = [] @ [Sent (targetDaw nothingSelected None) ClipGetSelection]"
    by (simp add: targetDaw_def exampleManager_def nothingSelected_def)
  have sel1: "selectionReply exampleManager tr = Inr \<lparr> sel_trackIndex = 2, sel_slotIndex = 0 \<rparr>"
    for tr by (simp add: exampleManager_def)
  have sel2: "selectionReply nothingSelected tr = Inr \<lparr> sel_trackIndex = - 1, sel_slotIndex = - 1 \<rparr>"
    for tr by (simp add: nothingSelected_def)
  note A = partial_addressing_ignored[OF p1 t1, where config = ?cfg]
  note B = partial_addressing_ignored[OF p2 t2, where config = ?cfg]
  from A have a1: "snd (resolveClipIndices exampleManager None (Some 7) None [])
      = [Sent Bitwig ClipGetSelection]" by blast
  from A have "\<forall>selection. selectionReply exampleManager [Sent Bitwig ClipGetSelection] = Inr selection \<longrightarrow>
          fst (resolveClipIndices exampleManager None (Some 7) None []) =
            (if sel_trackIndex selection = - 1 \<or> sel_slotIndex selection = - 1
             then Inl (Error noClipSlotSelected)
             else Inr \<lparr> trackIndex = sel_trackIndex selection,
                        slotIndex = sel_slotIndex selection \<rparr>)" by blast
  from this[rule_format, OF sel1]
  have a2: "fst (resolveClipIndices exampleManager None (Some 7) None [])
      = Inr \<lparr> trackIndex = 2, slotIndex = 0 \<rparr>" by simp
  from B have b1: "snd (resolveClipIndices nothingSelected None None (Some 7) [])
      = [Sent Bitwig ClipGetSelection]" by blast
  from B have "\<forall>selection. selectionReply nothingSelected [Sent Bitwig ClipGetSelection] = Inr selection \<longrightarrow>
          fst (resolveClipIndices nothingSelected None None (Some 7) []) =
            (if sel_trackIndex selection = - 1 \<or> sel_slotIndex selection = - 1
             then Inl (Error noClipSlotSelected)
             else Inr \<lparr> trackIndex = sel_trackIndex selection,
                        slotIndex = sel_slotIndex selection \<rparr>)" by blast
  from this[rule_format, OF sel2]
  have b2: "fst (resolveClipIndices nothingSelected None None (Some 7) [])
      = Inl (Error noClipSlotSelected)" by simp
  have a: "resolveClipIndices exampleManager None (Some 7) None []
     = (Inr \<lparr> trackIndex = 2, slotIndex = 0 \<rparr>, [Sent Bitwig ClipGetSelection])"
    using a1 a2 by (simp add: prod_eq_iff)
  have b: "resolveClipIndices nothingSelected None None (Some 7) []
     = (Inl (Error noClipSlotSelected), [Sent Bitwig ClipGetSelection])"
    using b1 b2 by (simp add: prod_eq_iff)
  from a b show ?thesis by simp
qed
subsection \<open>Auto-remediation\<close>

lemma findEmptySlots_eq:
  "findEmptySlots dawManager daw trackIdx startSlot cnt tr =
     (emptySlotsReply dawManager
        (tr @ [Sent (targetDaw dawManager daw) (ClipFindEmptySlots trackIdx startSlot cnt)]),
      tr @ [Sent (targetDaw dawManager daw) (ClipFindEmptySlots trackIdx startSlot cnt)])"
  by (simp add: findEmptySlots_def sendWith_eq)

text \<open>
  A backend that finds no free slot and rejects \<open>clip.createScene\<close>: the expansion
  command is issued for the shortfall 1 and nothing follows it, neither a settle delay
  nor a second query.
\<close>

theorem auto_remediation_counterexample:
  "findEmptySlotsWithAutoCreate exampleManager None 2 (Some 0) 1 []
     = (Inr (\<lparr> emptySlots = [], found = 0, requested = 1, es_sceneCount = 4 \<rparr>, 0),
        [Sent Bitwig (ClipFindEmptySlots 2 (Some 0) 1), Sent Bitwig (ClipCreateScene 1)])"
  by (simp add: findEmptySlotsWithAutoCreate_def findEmptySlots_eq sendWith_eq
      exampleManager_def targetDaw_def)

text \<open>
  C4 (amended). Auto-remediation is bounded to one corrective pass. One call of
  findEmptySlotsWithAutoCreate issues at most one \<open>clip.createScene\<close>, at most two
  \<open>clip.findEmptySlots\<close> and at most one delay. If the first query is rejected the call
  throws and issues nothing more. If it finds at least \<open>count\<close> slots there is no
  expansion command and no second query. If it finds fewer, exactly one
  \<open>clip.createScene\<close> is issued, with count equal to the shortfall; when the backend
  answers it with success, a delay of 50 ms and exactly one more capacity query follow
  (whose answer is returned if it arrives, the first answer otherwise); when the command
  is rejected or answered without success, neither a delay nor a second query follows.
\<close>

theorem auto_remediation_bounded:
  fixes dawManager :: "'n DAWClientManager"
  assumes r: "r = findEmptySlotsWithAutoCreate dawManager daw trackIdx startSlot cnt tr"
      and q: "q = Sent (targetDaw dawManager daw) (ClipFindEmptySlots trackIdx startSlot cnt)"
  shows
    "length (filter isCreateScene (since tr (snd r))) \<le> 1
     \<and> length (filter isFindEmptySlots (since tr (snd r))) \<le> 2
     \<and> length (filter isDelay (since tr (snd r))) \<le> 1
     \<and> (\<forall>e. emptySlotsReply dawManager (tr @ [q]) = Inl e \<longrightarrow> r = (Inl e, tr @ [q]))
     \<and> (\<forall>first. emptySlotsReply dawManager (tr @ [q]) = Inr first \<longrightarrow>
          (cnt \<le> found first \<longrightarrow> r = (Inr (first, 0), tr @ [q]))
          \<and> (found first < cnt \<longrightarrow>
               (let c = Sent (targetDaw dawManager daw) (ClipCreateScene (cnt - found first))
                in case createSceneReply dawManager (tr @ [q, c]) of
                     Inl e \<Rightarrow> r = (Inr (first, 0), tr @ [q, c])
                   | Inr createResult \<Rightarrow>
                       if cs_success createResult
                       then since tr (snd r) = [q, c, Delay 50, q]
                            \<and> fst r =
                                Inr (case emptySlotsReply dawManager (tr @ [q, c, Delay 50, q]) of
                                       Inl e \<Rightarrow> first | Inr second \<Rightarrow> second,
                                     created createResult)
                       else r = (Inr (first, 0), tr @ [q, c]))))"
  unfolding r q
  by (auto simp: findEmptySlotsWithAutoCreate_def findEmptySlots_eq sendWith_eq delay_def Let_def
      split: sum.splits)

theorem auto_remediation_bounded_witness:
  "findEmptySlotsWithAutoCreate growingManager (Some Bitwig) 2 (Some 0) 1 []
     = (Inr (\<lparr> emptySlots = [4], found = 1, requested = 1, es_sceneCount = 5 \<rparr>, 1),
        [Sent Bitwig (ClipFindEmptySlots 2 (Some 0) 1), Sent Bitwig (ClipCreateScene 1),
         Delay 50, Sent Bitwig (ClipFindEmptySlots 2 (Some 0) 1)])"
proof -
  let ?q = "Sent Bitwig (ClipFindEmptySlots 2 (Some 0) 1) :: nat event"
  let ?c = "Sent Bitwig (ClipCreateScene 1) :: nat event"
  let ?r = "findEmptySlotsWithAutoCreate growingManager (Some Bitwig) 2 (Some 0) 1 []"
  have q: "?q = Sent (targetDaw growingManager (Some Bitwig)) (ClipFindEmptySlots 2 (Some 0) 1)"
    by (simp add: targetDaw_def)
  have first: "emptySlotsReply growingManager ([] @ [?q])
      = Inr \<lparr> emptySlots = [], found = 0, requested = 1, es_sceneCount = 4 \<rparr>"
    by (simp add: growingManager_def)
  have second: "emptySlotsReply growingManager ([] @ [?q, ?c, Delay 50, ?q])
      = Inr \<lparr> emptySlots = [4], found = 1, requested = 1, es_sceneCount = 5 \<rparr>"
    by (simp add: growingManager_def)
  have scene: "createSceneReply growingManager tr
      = Inr \<lparr> cs_success = True, created = 1, cs_sceneCount = 5 \<rparr>" for tr
    by (simp add: growingManager_def)
  from auto_remediation_bounded[OF refl q, where tr = "[]"]
  have "\<forall>first. emptySlotsReply growingManager ([] @ [?q]) = Inr first \<longrightarrow>
          (found first < 1 \<longrightarrow>
               (let c = Sent (targetDaw growingManager (Some Bitwig)) (ClipCreateScene (1 - found first))
                in case createSceneReply growingManager ([] @ [?q, c]) of
                     Inl e \<Rightarrow> ?r = (Inr (first, 0), [] @ [?q, c])
                   | Inr createResult \<Rightarrow>
                       if cs_success createResult
                       then since [] (snd ?r) = [?q, c, Delay 50, ?q]
                            \<and> fst ?r =
                                Inr (case emptySlotsReply growingManager ([] @ [?q, c, Delay 50, ?q]) of
                                       Inl e \<Rightarrow> first | Inr second \<Rightarrow> second,
                                     created createResult)
                       else ?r = (Inr (first, 0), [] @ [?q, c])))"
    by blast
  from this[rule_format, OF first]
  have "since [] (snd ?r) = [?q, ?c, Delay 50, ?q]
        \<and> fst ?r = Inr (\<lparr> emptySlots = [4], found = 1, requested = 1, es_sceneCount = 5 \<rparr>, 1)"
    using second by (simp add: scene targetDaw_def)
  then show ?thesis by (simp add: prod_eq_iff since_def)
qed

subsection \<open>Batch orchestrator: the loops\<close>

lemma sortDescending_mset: "mset (sortDescending xs) = mset xs"
  by (simp add: sortDescending_def)

lemma sortDescending_sorted: "sorted (map uminus (sortDescending xs))"
  by (simp add: sortDescending_def)

lemma sortDescending_rev_sort: "sortDescending xs = rev (sort xs)"
proof -
  have "map uminus (sortDescending xs) = sort (map uminus xs)"
    by (rule properties_for_sort[symmetric]) (simp_all add: sortDescending_mset sortDescending_sorted)
  moreover have "map uminus (rev (sort xs)) = sort (map uminus xs)"
  proof (rule properties_for_sort[symmetric])
    show "mset (map uminus (rev (sort xs))) = mset (map uminus xs)" by simp
    show "sorted (map uminus (rev (sort xs)))"
      by (simp add: sorted_map sorted_wrt_rev)
  qed
  ultimately have "map uminus (sortDescending xs) = map uminus (rev (sort xs))" by simp
  then show ?thesis by (simp add: inj_map_eq_map inj_on_def)
qed

lemma sortDescending_descending: "sorted_wrt (\<ge>) (sortDescending xs)"
  unfolding sortDescending_rev_sort
  by (simp add: sorted_wrt_rev) 

lemma rejections_Nil [simp]: "rejections reply tr [] = []"
  by (simp add: rejections_def)

lemma rejections_Cons:
  "rejections reply tr (x # xs) =
     (case reply (tr @ [x]) of Inl e \<Rightarrow> [(0, message e)] | Inr _ \<Rightarrow> [])
     @ map (\<lambda>(k, msg). (Suc k, msg)) (rejections reply (tr @ [x]) xs)"
proof -
  have upt: "[0 ..< length (x # xs)] = 0 # map Suc [0 ..< length xs]"
    by (simp add: upt_conv_Cons map_Suc_upt del: upt_Suc)
  have pt: "(case reply (tr @ take (Suc (Suc k)) (x # xs)) of
               Inl e \<Rightarrow> [(Suc k, message e)] | Inr _ \<Rightarrow> [])
            = map (\<lambda>(k, msg). (Suc k, msg))
                (case reply ((tr @ [x]) @ take (Suc k) xs) of
                   Inl e \<Rightarrow> [(k, message e)] | Inr _ \<Rightarrow> [])" for k
    by (simp split: sum.splits)
  have "concat (map (\<lambda>k. case reply (tr @ take (Suc k) (x # xs)) of
                          Inl e \<Rightarrow> [(k, message e)] | Inr _ \<Rightarrow> [])
                 (map Suc [0 ..< length xs]))
        = map (\<lambda>(k, msg). (Suc k, msg))
            (concat (map (\<lambda>k. case reply ((tr @ [x]) @ take (Suc k) xs) of
                                 Inl e \<Rightarrow> [(k, message e)] | Inr _ \<Rightarrow> [])
                         [0 ..< length xs]))"
    unfolding map_concat map_map comp_def pt ..
  then show ?thesis
    unfolding rejections_def upt by simp
qed

lemma rejections_length: "length (rejections reply tr cmds) \<le> length cmds"
proof (induction cmds arbitrary: tr)
  case Nil
  show ?case by simp
next
  case (Cons x xs)
  show ?case using Cons.IH[of "tr @ [x]"]
    by (simp add: rejections_Cons split: sum.splits)
qed

lemma deleteTracksLoop_eq:
  "deleteTracksLoop dawManager daw sortedIndices c errs tr = (c', errs', tr') \<Longrightarrow>
     c' + length (rejections (ackReply dawManager) tr (map (\<lambda>i. Sent daw (TrackDelete i)) sortedIndices))
        = c + length sortedIndices
     \<and> errs' = errs @ map (\<lambda>(k, msg). \<lparr> index = toUser (sortedIndices ! k), error = msg \<rparr>)
                      (rejections (ackReply dawManager) tr
                         (map (\<lambda>i. Sent daw (TrackDelete i)) sortedIndices))
     \<and> tr' = tr @ map (\<lambda>i. Sent daw (TrackDelete i)) sortedIndices"
proof (induction sortedIndices arbitrary: c errs tr)
  case Nil
  then show ?case by simp
next
  case (Cons ix sortedIndices)
  let ?x = "Sent daw (TrackDelete ix)"
  show ?case
  proof (cases "ackReply dawManager (tr @ [?x])")
    case (Inl e)
    with Cons.prems have
      "deleteTracksLoop dawManager daw sortedIndices c
         (errs @ [\<lparr> index = toUser ix, error = message e \<rparr>]) (tr @ [?x]) = (c', errs', tr')"
      by (simp add: sendCmd_eq targetDaw_def)
    from Cons.IH[OF this] show ?thesis using Inl
      by (simp add: rejections_Cons comp_def case_prod_unfold)
  next
    case (Inr u)
    with Cons.prems have
      "deleteTracksLoop dawManager daw sortedIndices (c + 1) errs (tr @ [?x]) = (c', errs', tr')"
      by (simp add: sendCmd_eq targetDaw_def)
    from Cons.IH[OF this] show ?thesis using Inr
      by (simp add: rejections_Cons comp_def case_prod_unfold)
  qed
qed

lemma aggregates_batchResult:
  "c + length errs = n \<Longrightarrow> aggregates n (batchResult c errs)"
  by (auto simp: aggregates_def batchResult_def)

lemma errorsOf_batchResult [simp]: "errorsOf (batchResult c errs) = errs"
  by (cases errs) (simp_all add: errorsOf_def batchResult_def)

lemma handleBatchDeleteTracks_eq:
  "\<exists>res. handleBatchDeleteTracks dawManager daw trackIndices tr =
           (Inr res, tr @ map (\<lambda>i. Sent daw (TrackDelete i))
                             (sortDescending (map toInternal trackIndices)))
     \<and> aggregates (length trackIndices) res
     \<and> errorsOf res =
          map (\<lambda>(k, msg). \<lparr> index = toUser (sortDescending (map toInternal trackIndices) ! k),
                             error = msg \<rparr>)
            (rejections (ackReply dawManager) tr
               (map (\<lambda>i. Sent daw (TrackDelete i))
                  (sortDescending (map toInternal trackIndices))))"
proof -
  let ?sorted = "sortDescending (map toInternal trackIndices)"
  obtain c errs tr' where
    loop: "deleteTracksLoop dawManager daw ?sorted 0 [] tr = (c, errs, tr')"
    by (cases "deleteTracksLoop dawManager daw ?sorted 0 [] tr") auto
  note L = deleteTracksLoop_eq[OF loop]
  have len: "length ?sorted = length trackIndices"
    using sortDescending_mset[of "map toInternal trackIndices"] by (metis length_map size_mset)
  have n: "c + length errs = length trackIndices"
    using L len by simp
  have "handleBatchDeleteTracks dawManager daw trackIndices tr = (Inr (batchResult c errs), tr')"
    by (simp add: handleBatchDeleteTracks_def Let_def loop)
  then show ?thesis using L aggregates_batchResult[OF n] by simp
qed


lemma rejections_iff:
  "(k, msg) \<in> set (rejections reply tr cmds) \<longleftrightarrow>
     k < length cmds \<and> (\<exists>e. reply (tr @ take (Suc k) cmds) = Inl e \<and> msg = message e)"
proof
  assume "(k, msg) \<in> set (rejections reply tr cmds)"
  then have "\<exists>j \<in> set [0 ..< length cmds].
               (k, msg) \<in> set (case reply (tr @ take (Suc j) cmds) of
                                  Inl e \<Rightarrow> [(j, message e)] | Inr _ \<Rightarrow> [])"
    unfolding rejections_def set_concat set_map by blast
  then obtain j where j: "j \<in> set [0 ..< length cmds]"
    and mem: "(k, msg) \<in> set (case reply (tr @ take (Suc j) cmds) of
                                  Inl e \<Rightarrow> [(j, message e)] | Inr _ \<Rightarrow> [])"
    by blast
  then show "k < length cmds \<and> (\<exists>e. reply (tr @ take (Suc k) cmds) = Inl e \<and> msg = message e)"
    by (cases "reply (tr @ take (Suc j) cmds)") auto
next
  assume "k < length cmds \<and> (\<exists>e. reply (tr @ take (Suc k) cmds) = Inl e \<and> msg = message e)"
  then obtain e where "k < length cmds" "reply (tr @ take (Suc k) cmds) = Inl e" "msg = message e"
    by blast
  then have "(k, msg) \<in> set (case reply (tr @ take (Suc k) cmds) of
                                  Inl e \<Rightarrow> [(k, message e)] | Inr _ \<Rightarrow> [])"
    "k \<in> set [0 ..< length cmds]"
    by simp_all
  then show "(k, msg) \<in> set (rejections reply tr cmds)"
    unfolding rejections_def set_concat set_map by blast
qed


subsection \<open>Batch orchestrator: descending deletion\<close>

text \<open>
  The caller asks to delete the track \<open>2 ^ 53 + 2\<close>. The index sent is \<open>2 ^ 53\<close>, not the
  index decremented by one: \<open>2 ^ 53 + 1\<close> is not a double.
\<close>

theorem descending_deletion_counterexample:
  "snd (handleBatchDeleteTracks exampleManager Bitwig [9007199254740994] [])
     = [Sent Bitwig (TrackDelete 9007199254740992)]"
proof -
  have "roundDouble 9007199254740993 = 9007199254740992"
    by (simp add: roundDouble_def ulp_next Let_def)
  then show ?thesis
    by (simp add: handleBatchDeleteTracks_def Let_def sortDescending_def toInternal_def
        sendCmd_eq targetDaw_def exampleManager_def)
qed

text \<open>
  C7 (amended). Descending-order destructive deletion. The events that
  handleBatchDeleteTracks adds are exactly the \<open>track.delete\<close> commands for the caller's
  1-based indices, each converted by toInternal, in descending order: every index sent is
  at most each index sent before it, the indices sent are the converted ones (with their
  multiplicities), and a reordering of the caller's list changes nothing. For indices n
  with \<open>- 2 ^ 53 < n \<le> 2 ^ 53\<close> the conversion is the decrement by one, so the indices
  sent are the caller's indices each decremented by one, in descending order.
\<close>

theorem descending_deletion:
  "snd (handleBatchDeleteTracks dawManager daw trackIndices tr)
     = tr @ map (\<lambda>i. Sent daw (TrackDelete i)) (rev (sort (map toInternal trackIndices)))
   \<and> sorted_wrt (\<ge>) (rev (sort (map toInternal trackIndices)))
   \<and> mset (rev (sort (map toInternal trackIndices))) = mset (map toInternal trackIndices)
   \<and> (mset other = mset trackIndices \<longrightarrow>
        handleBatchDeleteTracks dawManager daw other tr
          = handleBatchDeleteTracks dawManager daw trackIndices tr)
   \<and> ((\<forall>n \<in> set trackIndices. - (2 ^ 53) < n \<and> n \<le> 2 ^ 53) \<longrightarrow>
        rev (sort (map toInternal trackIndices)) = rev (sort (map (\<lambda>n. n - 1) trackIndices)))"
proof -
  have 1: "snd (handleBatchDeleteTracks dawManager daw trackIndices tr)
     = tr @ map (\<lambda>i. Sent daw (TrackDelete i)) (rev (sort (map toInternal trackIndices)))"
    using handleBatchDeleteTracks_eq[of dawManager daw trackIndices tr]
    by (auto simp: sortDescending_rev_sort)
  have 2: "sorted_wrt (\<ge>) (rev (sort (map toInternal trackIndices)))"
    using sortDescending_descending[of "map toInternal trackIndices"]
    by (simp add: sortDescending_rev_sort)
  have 3: "handleBatchDeleteTracks dawManager daw other tr
          = handleBatchDeleteTracks dawManager daw trackIndices tr"
    if "mset other = mset trackIndices"
  proof -
    have "mset (map toInternal other) = mset (map toInternal trackIndices)"
      using that by (metis mset_map)
    then have "sort (map toInternal other) = sort (map toInternal trackIndices)"
      by (metis properties_for_sort sorted_sort mset_sort)
    then show ?thesis
      by (simp add: handleBatchDeleteTracks_def Let_def sortDescending_rev_sort)
  qed
  have 4: "rev (sort (map toInternal trackIndices)) = rev (sort (map (\<lambda>n. n - 1) trackIndices))"
    if "\<forall>n \<in> set trackIndices. - (2 ^ 53) < n \<and> n \<le> 2 ^ 53"
  proof -
    have "map toInternal trackIndices = map (\<lambda>n. n - 1) trackIndices"
      using that by (intro map_cong refl toInternal_in_range) auto
    then show ?thesis by (rule arg_cong[where f = "\<lambda>l. rev (sort l)"])
  qed
  from 1 2 3 4 show ?thesis by simp
qed

theorem descending_deletion_witness:
  "snd (handleBatchDeleteTracks exampleManager Bitwig [2, 5, 3] [])
     = [Sent Bitwig (TrackDelete 4), Sent Bitwig (TrackDelete 2), Sent Bitwig (TrackDelete 1)]
   \<and> handleBatchDeleteTracks exampleManager Bitwig [5, 3, 2] []
     = handleBatchDeleteTracks exampleManager Bitwig [2, 5, 3] []"
proof -
  note T = descending_deletion[of exampleManager Bitwig "[2, 5, 3]" "[]" "[5, 3, 2]"]
  have "sort (map (\<lambda>n. n - 1) [2, 5, 3 :: int]) = [1, 2, 4]" by simp
  then have r: "rev (sort (map (\<lambda>n. n - 1) [2, 5, 3 :: int])) = [4, 2, 1]" by simp
  have rng: "\<forall>n \<in> set [2, 5, 3 :: int]. - (2 ^ 53) < n \<and> n \<le> 2 ^ 53" by simp
  from T rng have "rev (sort (map toInternal [2, 5, 3])) = [4, 2, 1]"
    unfolding r by blast
  moreover have "mset [5, 3, 2 :: int] = mset [2, 5, 3]" by simp
  ultimately show ?thesis using T by simp
qed

text \<open>
  Why the order matters: applied in the order sent, the deletions of distinct tracks
  remove exactly the tracks at the positions the caller named, since each deletion moves
  only tracks behind it, which have been dealt with before.
\<close>

lemma nths_cong_below:
  "(\<And>j. j < length xs \<Longrightarrow> (j \<in> A) = (j \<in> B)) \<Longrightarrow> nths xs A = nths xs B"
  unfolding nths_def
  by (rule arg_cong[where f = "map fst"], rule filter_cong) (auto simp: set_zip)

lemma nths_UNIV_id [simp]: "nths xs UNIV = xs"
  by (rule nths_all) simp

lemma nths_split_at:
  assumes "\<forall>j \<in> R. j < length ys"
  shows "nths (ys @ zs) (- R) = nths ys (- R) @ zs"
    and "nths (ys @ x # zs) (- insert (length ys) R) = nths ys (- R) @ zs"
proof -
  have z1: "nths zs {j. j + length ys \<in> - R} = zs"
    by (rule nths_all) (use assms in auto)
  have "nths zs {j. Suc j \<in> {j. j + length ys \<in> - insert (length ys) R}} = zs"
    by (rule nths_all) (use assms in auto)
  then have z2: "nths (x # zs) {j. j + length ys \<in> - insert (length ys) R} = zs"
    unfolding nths_Cons by simp
  have front: "nths ys (- insert (length ys) R) = nths ys (- R)"
    by (rule nths_cong_below) auto
  show "nths (ys @ zs) (- R) = nths ys (- R) @ zs"
    by (simp only: nths_append z1)
  show "nths (ys @ x # zs) (- insert (length ys) R) = nths ys (- R) @ zs"
    by (simp only: nths_append z2 front)
qed

lemma removeAt_nths:
  assumes "i < length xs" and "\<forall>j \<in> R. j < i"
  shows "nths (removeAt i xs) (- R) = nths xs (- insert i R)"
proof -
  let ?ys = "take i xs" and ?zs = "drop (Suc i) xs"
  have len: "length ?ys = i" using assms(1) by simp
  have R: "\<forall>j \<in> R. j < length ?ys" using assms(2) len by simp
  have xs: "xs = ?ys @ (xs ! i) # ?zs"
    using assms(1) by (rule id_take_nth_drop)
  have "nths (removeAt i xs) (- R) = nths ?ys (- R) @ ?zs"
    unfolding removeAt_def by (rule nths_split_at(1)[OF R])
  also have "\<dots> = nths (?ys @ (xs ! i) # ?zs) (- insert (length ?ys) R)"
    by (rule nths_split_at(2)[OF R, symmetric])
  also have "\<dots> = nths xs (- insert i R)"
    unfolding len using xs by simp
  finally show ?thesis .
qed

lemma descending_removals:
  assumes "sorted_wrt (>) is" and "\<forall>i \<in> set is. i < length xs"
  shows "fold removeAt is xs = nths xs (- set is)"
  using assms
proof (induction "is" arbitrary: xs)
  case Nil
  then show ?case by simp
next
  case (Cons i "is")
  have i: "i < length xs" and below: "\<forall>j \<in> set is. j < i" and srt: "sorted_wrt (>) is"
    using Cons.prems by auto
  have len: "length (removeAt i xs) = length xs - 1"
    using i by (simp add: removeAt_def)
  have "\<forall>j \<in> set is. j < length (removeAt i xs)"
    using below i len by auto
  from Cons.IH[OF srt this]
  have "fold removeAt is (removeAt i xs) = nths (removeAt i xs) (- set is)" .
  also have "\<dots> = nths xs (- insert i (set is))"
    by (rule removeAt_nths[OF i below])
  finally show ?case by simp
qed

lemma descending_deletion_keeps_positions:
  assumes "distinct trackIndices"
      and "\<forall>n \<in> set trackIndices. 1 \<le> n \<and> n \<le> int (length tracks)"
      and "int (length tracks) \<le> 2 ^ 53"
  shows "fold removeAt (map nat (rev (sort (map toInternal trackIndices)))) tracks
           = nths tracks (- (\<lambda>n. nat (n - 1)) ` set trackIndices)"
proof -
  have "map toInternal trackIndices = map (\<lambda>n. n - 1) trackIndices"
    using assms(2,3) by (intro map_cong refl toInternal_in_range) auto
  then have m: "rev (sort (map toInternal trackIndices)) = rev (sort (map (\<lambda>n. n - 1) trackIndices))"
    by (rule arg_cong[where f = "\<lambda>l. rev (sort l)"])
  let ?sent = "rev (sort (map (\<lambda>n. n - 1) trackIndices))"
  have inj: "inj_on (\<lambda>n :: int. n - 1) (set trackIndices)" by (simp add: inj_on_def)
  have "distinct (map (\<lambda>n. n - 1) trackIndices)"
    using assms(1) inj by (simp add: distinct_map)
  then have "sorted_wrt (<) (sort (map (\<lambda>n. n - 1) trackIndices))"
    by (simp add: strict_sorted_iff)
  then have "sorted_wrt (>) ?sent"
    by (simp add: sorted_wrt_rev)
  have nonneg: "\<forall>i \<in> set ?sent. 0 \<le> i" using assms(2) by auto
  from \<open>sorted_wrt (>) ?sent\<close>
  have "sorted_wrt (>) (map nat ?sent)"
    unfolding sorted_wrt_map
    by (rule sorted_wrt_mono_rel[rotated]) (use nonneg in auto)
  moreover have "\<forall>i \<in> set (map nat ?sent). i < length tracks"
    using assms(2) by auto
  ultimately have "fold removeAt (map nat ?sent) tracks = nths tracks (- set (map nat ?sent))"
    by (rule descending_removals)
  moreover have "set (map nat ?sent) = (\<lambda>n. nat (n - 1)) ` set trackIndices"
    by (auto simp: image_image)
  ultimately show ?thesis unfolding m by simp
qed

subsection \<open>Batch orchestrator: the loop of the batch handlers\<close>

lemma itemRuns_length [simp]: "length (itemRuns body items kept tr) = length items"
  by (induction items arbitrary: kept tr) (auto split: prod.splits)

text \<open>
  The run of an item is the body of that item, started from what the runs of the items
  before it have left.
\<close>

lemma itemRuns_nth:
  "k < length items \<Longrightarrow>
     itemRuns body items kept tr ! k
       = body (keptAfter (itemRuns body (take k items) kept tr) kept) (items ! k)
              (traceAfter (itemRuns body (take k items) kept tr) tr)"
proof (induction items arbitrary: k kept tr)
  case Nil
  then show ?case by simp
next
  case (Cons item items)
  obtain r kept1 tr1 where b: "body kept item tr = (r, kept1, tr1)"
    by (cases "body kept item tr") auto
  show ?case
  proof (cases k)
    case 0
    then show ?thesis by (simp add: b keptAfter_def traceAfter_def)
  next
    case (Suc j)
    with Cons.prems have j: "j < length items" by simp
    have after: "keptAfter (itemRuns body (take k (item # items)) kept tr) kept
                   = keptAfter (itemRuns body (take j items) kept1 tr1) kept1"
      "traceAfter (itemRuns body (take k (item # items)) kept tr) tr
                   = traceAfter (itemRuns body (take j items) kept1 tr1) tr1"
      by (simp_all add: Suc b keptAfter_def traceAfter_def)
    show ?thesis unfolding after using Cons.IH[OF j, of kept1 tr1] by (simp add: Suc b)
  qed
qed

lemma failuresFrom_length: "length (failuresFrom k runs) \<le> length runs"
proof (induction runs arbitrary: k)
  case Nil
  show ?case by simp
next
  case (Cons run runs)
  obtain r x where run: "run = (r, x)" by (cases run) auto
  show ?case using Cons.IH[of "Suc k"] by (cases r) (simp_all add: run le_SucI)
qed

lemma failuresFrom_shift:
  "failuresFrom (i + k) runs = map (\<lambda>(j, t). (i + j, t)) (failuresFrom k runs)"
proof (induction runs arbitrary: k)
  case Nil
  show ?case by simp
next
  case (Cons run runs)
  obtain r x where run: "run = (r, x)" by (cases run) auto
  show ?case using Cons.IH[of "Suc k"] by (cases r) (simp_all add: run)
qed

text \<open>
  A position is among the failures exactly when the run at that position failed, with
  that text.
\<close>

lemma failuresFrom_iff:
  "(j, t) \<in> set (failuresFrom k runs) \<longleftrightarrow>
     k \<le> j \<and> j - k < length runs \<and> fst (runs ! (j - k)) = Inl t"
proof (induction runs arbitrary: k)
  case Nil
  show ?case by simp
next
  case (Cons run runs)
  obtain r x where run: "run = (r, x)" by (cases run) auto
  have step: "(j, t) \<in> set (failuresFrom (Suc k) runs) \<longleftrightarrow>
      Suc k \<le> j \<and> j - Suc k < length runs \<and> fst (runs ! (j - Suc k)) = Inl t"
    by (rule Cons.IH)
  have head: "(j, t) \<in> set (failuresFrom k (run # runs)) \<longleftrightarrow>
      (j = k \<and> r = Inl t) \<or> (j, t) \<in> set (failuresFrom (Suc k) runs)"
    by (cases r) (auto simp: run)
  show ?case
  proof (cases "j = k")
    case True
    then show ?thesis unfolding head step by (simp add: run)
  next
    case False
    show ?thesis
    proof (cases "Suc k \<le> j")
      case True
      then have "j - k = Suc (j - Suc k)" by arith
      then show ?thesis unfolding head step using True False by simp
    next
      case no: False
      with False have "\<not> k \<le> j" by arith
      then show ?thesis unfolding head step using no False by simp
    qed
  qed
qed

lemma failures_iff:
  "(j, t) \<in> set (failures runs) \<longleftrightarrow> j < length runs \<and> fst (runs ! j) = Inl t"
  by (simp add: failures_def failuresFrom_iff)

lemma failuresFrom_ascending: "sorted_wrt (<) (map fst (failuresFrom k runs))"
proof (induction runs arbitrary: k)
  case Nil
  show ?case by simp
next
  case (Cons run runs)
  obtain r x where run: "run = (r, x)" by (cases run) auto
  have "\<forall>p \<in> set (failuresFrom (Suc k) runs). k < fst p"
    using failuresFrom_iff[of _ _ "Suc k" runs] by auto
  then show ?case using Cons.IH[of "Suc k"] by (cases r) (auto simp: run)
qed


lemma errorsOf_update [simp]:
  "errorsOf (res \<lparr> createdClips := a \<rparr>) = errorsOf res"
  "errorsOf (res \<lparr> createdIndices := b \<rparr>) = errorsOf res"
  "errorsOf (res \<lparr> br_clips := c \<rparr>) = errorsOf res"
  "errorsOf (res \<lparr> br_tracks := d \<rparr>) = errorsOf res"
  "errorsOf (res \<lparr> notesFound := e \<rparr>) = errorsOf res"
  by (simp_all add: errorsOf_def)


subsection \<open>Batch orchestrator: the handlers\<close>

lemma attemptsAll_update [simp]:
  "attemptsAll body items kept tr (Inr (res \<lparr> createdClips := a \<rparr>), tr')
     = attemptsAll body items kept tr (Inr res, tr')"
  "attemptsAll body items kept tr (Inr (res \<lparr> createdIndices := b \<rparr>), tr')
     = attemptsAll body items kept tr (Inr res, tr')"
  "attemptsAll body items kept tr (Inr (res \<lparr> br_clips := c \<rparr>), tr')
     = attemptsAll body items kept tr (Inr res, tr')"
  "attemptsAll body items kept tr (Inr (res \<lparr> br_tracks := d \<rparr>), tr')
     = attemptsAll body items kept tr (Inr res, tr')"
  "attemptsAll body items kept tr (Inr (res \<lparr> notesFound := e \<rparr>), tr')
     = attemptsAll body items kept tr (Inr res, tr')"
  "attemptsAll body items kept tr (Inr (res \<lparr> br_message := f \<rparr>), tr')
     = attemptsAll body items kept tr (Inr res, tr')"
  "attemptsAll body items kept tr (Inr (res \<lparr> sceneCount := g \<rparr>), tr')
     = attemptsAll body items kept tr (Inr res, tr')"
  "attemptsAll body items kept tr (Inr (res \<lparr> scenesCreated := h \<rparr>), tr')
     = attemptsAll body items kept tr (Inr res, tr')"
  by (simp_all add: attemptsAll_def)

lemma taggedByPosition_update [simp]:
  "taggedByPosition body items kept tr (Inr (res \<lparr> createdClips := a \<rparr>), tr')
     = taggedByPosition body items kept tr (Inr res, tr')"
  "taggedByPosition body items kept tr (Inr (res \<lparr> createdIndices := b \<rparr>), tr')
     = taggedByPosition body items kept tr (Inr res, tr')"
  "taggedByPosition body items kept tr (Inr (res \<lparr> br_clips := c \<rparr>), tr')
     = taggedByPosition body items kept tr (Inr res, tr')"
  "taggedByPosition body items kept tr (Inr (res \<lparr> br_tracks := d \<rparr>), tr')
     = taggedByPosition body items kept tr (Inr res, tr')"
  "taggedByPosition body items kept tr (Inr (res \<lparr> notesFound := e \<rparr>), tr')
     = taggedByPosition body items kept tr (Inr res, tr')"
  "taggedByPosition body items kept tr (Inr (res \<lparr> br_message := f \<rparr>), tr')
     = taggedByPosition body items kept tr (Inr res, tr')"
  "taggedByPosition body items kept tr (Inr (res \<lparr> sceneCount := g \<rparr>), tr')
     = taggedByPosition body items kept tr (Inr res, tr')"
  "taggedByPosition body items kept tr (Inr (res \<lparr> scenesCreated := h \<rparr>), tr')
     = taggedByPosition body items kept tr (Inr res, tr')"
  by (simp_all add: taggedByPosition_def errorsOf_def)



subsubsection \<open>handleBatchSetNotes\<close>




subsubsection \<open>handleBatchMoveNotes\<close>



subsubsection \<open>handleBatchClearNotes\<close>





subsubsection \<open>handleBatchSetNoteProperties and handleBatchOperations\<close>





subsubsection \<open>handleTransposeRange\<close>




subsubsection \<open>handleBatchCreateTracks and handleBatchSetTrackProperties\<close>



subsubsection \<open>handleBatchDeleteTracks\<close>




subsubsection \<open>handleBatchGetNotes and handleBatchListClips\<close>














subsubsection \<open>handleBatchDeleteClips\<close>





subsubsection \<open>handleBatchCreateClips\<close>








subsection \<open>Batch orchestrator: aggregation and tagging\<close>

text \<open>
  The batch handlers are the thirteen handlers of batch-notes.ts, batch-tracks.ts,
  batch-clips.ts and operations.ts that return a \<open>BatchResult\<close> built from a list of
  items; server.ts dispatches the batch tools to them and catches what they throw. Their
  arguments have the types that their casts declare. The two theorems below
  go through them in the same order: the six handlers that begin with selectClipIfNeeded
  (handleBatchSetNotes, handleBatchMoveNotes, handleBatchClearNotes,
  handleBatchSetNoteProperties, handleBatchOperations, handleTransposeRange), the three
  handlers of tracks, then handleBatchGetNotes, handleBatchListClips,
  handleBatchDeleteClips and handleBatchCreateClips, whose first steps depend on the
  arguments. \<open>q1\<close> is the trace after the selection query and \<open>q2\<close> the trace after the
  scene-count query that follows it.
\<close>









end
